theory Spec2Isabelle
  imports Complex_Main "HOL-Library.Word"
begin

unbundle bit_operations_syntax

section \<open>JavaScript strings\<close>

text \<open>
  A JavaScript string is a sequence of UTF-16 code units; \<open>length\<close> counts code units.
  String literals of the source are ASCII and written through \<open>js\<close>.
\<close>

type_synonym jschar = "16 word"
type_synonym jsstring = "jschar list"

definition js :: "string \<Rightarrow> jsstring" where
  "js s = map (\<lambda>c. of_nat (of_char c)) s"

text \<open>
  The class \<open>\s\<close> of a regular expression and the characters removed by
  \<open>String.prototype.trim\<close> are the same set: WhiteSpace and LineTerminator of ECMAScript.
\<close>

definition is_space :: "jschar \<Rightarrow> bool" where
  "is_space c \<longleftrightarrow>
     c = 0x09 \<or> c = 0x0A \<or> c = 0x0B \<or> c = 0x0C \<or> c = 0x0D \<or> c = 0x20 \<or> c = 0xA0 \<or>
     c = 0x1680 \<or> (0x2000 \<le> c \<and> c \<le> 0x200A) \<or> c = 0x2028 \<or> c = 0x2029 \<or>
     c = 0x202F \<or> c = 0x205F \<or> c = 0x3000 \<or> c = 0xFEFF"

text \<open>The class \<open>[.!?]\<close>.\<close>

definition is_terminal :: "jschar \<Rightarrow> bool" where
  "is_terminal c \<longleftrightarrow> c = 0x2E \<or> c = 0x21 \<or> c = 0x3F"

definition trim :: "jsstring \<Rightarrow> jsstring" where
  "trim s = rev (dropWhile is_space (rev (dropWhile is_space s)))"

text \<open>\<open>Array.prototype.join(sep)\<close>.\<close>

fun join_with :: "jsstring \<Rightarrow> jsstring list \<Rightarrow> jsstring" where
  "join_with sep [] = []"
| "join_with sep [x] = x"
| "join_with sep (x # y # zs) = x @ sep @ join_with sep (y # zs)"

text \<open>\<open>parts.join(' ')\<close>.\<close>

abbreviation sjoin :: "jsstring list \<Rightarrow> jsstring" where
  "sjoin \<equiv> join_with [0x20]"

section \<open>Text chunker (\<open>splitTextIntoChunks\<close>)\<close>

text \<open>
  \<open>text.split(/(?<=[.!?])\s+/)\<close>: the scan cuts at every position whose previous code unit
  is terminal punctuation and whose own code unit is white space, and the separator is the
  maximal run of white space from there. \<open>cur\<close> is the piece read since the last cut; the
  code unit before a piece start is white space or the start of the text, never
  punctuation. The empty text gives one empty piece.
\<close>

function split_from :: "jsstring \<Rightarrow> jsstring \<Rightarrow> jsstring list" where
  "split_from cur [] = [cur]"
| "split_from cur (c # cs) =
     (if is_space c \<and> cur \<noteq> [] \<and> is_terminal (last cur)
      then cur # split_from [] (dropWhile is_space cs)
      else split_from (cur @ [c]) cs)"
  by pat_completeness auto
termination
  by (relation "measure (\<lambda>(cur, cs). length cs)")
     (auto simp: less_Suc_eq_le length_dropWhile_le)

definition split_sentences :: "jsstring \<Rightarrow> jsstring list" where
  "split_sentences text = split_from [] text"

text \<open>
  The \<open>for (const s of sentences)\<close> loop, with its two variables \<open>chunks\<close> and \<open>current\<close>.
  A string is truthy when it is not empty. The bound \<open>maxChars\<close> is a count of code units
  (300 by default and at the only call).
\<close>

definition chunk_step :: "nat \<Rightarrow> jsstring list \<times> jsstring \<Rightarrow> jsstring \<Rightarrow> jsstring list \<times> jsstring" where
  "chunk_step maxChars st s =
     (case st of (chunks, current) \<Rightarrow>
        if length (current @ (if current \<noteq> [] then [0x20] else []) @ s) > maxChars \<and> current \<noteq> []
        then (chunks @ [trim current], s)
        else (chunks, if current \<noteq> [] then current @ [0x20] @ s else s))"

primrec chunk_loop :: "nat \<Rightarrow> jsstring list \<times> jsstring \<Rightarrow> jsstring list \<Rightarrow> jsstring list \<times> jsstring" where
  "chunk_loop maxChars st [] = st"
| "chunk_loop maxChars st (s # ss) = chunk_loop maxChars (chunk_step maxChars st s) ss"

definition splitTextIntoChunks :: "jsstring \<Rightarrow> nat \<Rightarrow> jsstring list" where
  "splitTextIntoChunks text maxChars =
     (case chunk_loop maxChars ([], []) (split_sentences text) of
        (chunks, current) \<Rightarrow>
          (let chunks' = (if trim current \<noteq> [] then chunks @ [trim current] else chunks)
           in if chunks' \<noteq> [] then chunks' else [text]))"

text \<open>
  For stating the round trip: the text with every run of white space that follows terminal
  punctuation replaced by one space. The flag tells whether the code unit before is
  terminal punctuation.
\<close>

function single_spaced :: "bool \<Rightarrow> jsstring \<Rightarrow> jsstring" where
  "single_spaced after_terminal [] = []"
| "single_spaced after_terminal (c # cs) =
     (if is_space c \<and> after_terminal
      then 0x20 # single_spaced False (dropWhile is_space cs)
      else c # single_spaced (is_terminal c) cs)"
  by pat_completeness auto
termination
  by (relation "measure (\<lambda>(after_terminal, cs). length cs)")
     (auto simp: less_Suc_eq_le length_dropWhile_le)

text \<open>
  For stating the grouping, in the words of the specification: sentences are accumulated
  into the current chunk while \<open>len(current) + 1 + len(sentence) \<le> B\<close>; a sentence that
  would overflow closes the current chunk and starts the next one; a sentence starts the
  chunk when the chunk is empty, whatever its length. \<open>g\<close> is the run of sentences of the
  current chunk, and the result is the runs of all chunks in order.
\<close>

fun greedy_groups :: "nat \<Rightarrow> jsstring list \<Rightarrow> jsstring list \<Rightarrow> jsstring list list" where
  "greedy_groups B g [] = (if g = [] then [] else [g])"
| "greedy_groups B g (s # ss) =
     (if g \<noteq> [] \<and> B < length (sjoin g) + 1 + length s
      then g # greedy_groups B [s] ss
      else greedy_groups B (g @ [s]) ss)"

section \<open>Output sanitizer (\<open>sanitizeCliOutput\<close>)\<close>

text \<open>A regular expression that is a literal, tested with \<open>.test(line)\<close>: an occurrence anywhere.\<close>

fun starts_with :: "'a list \<Rightarrow> 'a list \<Rightarrow> bool" where
  "starts_with [] ys = True"
| "starts_with (x # xs) [] = False"
| "starts_with (x # xs) (y # ys) = (x = y \<and> starts_with xs ys)"

fun contains :: "'a list \<Rightarrow> 'a list \<Rightarrow> bool" where
  "contains pat [] = (pat = [])"
| "contains pat (y # ys) = (starts_with pat (y # ys) \<or> contains pat ys)"

text \<open>
  The flag \<open>i\<close> without the flag \<open>u\<close> compares code units after simple upper-casing, and never
  lets a code unit from 128 on match one below 128: on the ASCII patterns of the source it
  is the comparison of the ASCII letters without case.
\<close>

definition fold_case :: "jschar \<Rightarrow> jschar" where
  "fold_case c = (if 0x41 \<le> c \<and> c \<le> 0x5A then c + 0x20 else c)"

definition contains_ci :: "jsstring \<Rightarrow> jsstring \<Rightarrow> bool" where
  "contains_ci pat line = contains (map fold_case pat) (map fold_case line)"

text \<open>
  \<open>text.split(/\r?\n/)\<close>: a cut at every line feed; a carriage return just before the line
  feed belongs to the separator.
\<close>

definition chop_cr :: "jsstring \<Rightarrow> jsstring" where
  "chop_cr cur = (if cur \<noteq> [] \<and> last cur = 0x0D then butlast cur else cur)"

fun lines_from :: "jsstring \<Rightarrow> jsstring \<Rightarrow> jsstring list" where
  "lines_from cur [] = [cur]"
| "lines_from cur (c # cs) =
     (if c = 0x0A then chop_cr cur # lines_from [] cs else lines_from (cur @ [c]) cs)"

definition split_lines :: "jsstring \<Rightarrow> jsstring list" where
  "split_lines text = lines_from [] text"

definition noisy :: "jsstring \<Rightarrow> bool" where
  "noisy line \<longleftrightarrow>
     contains (js ''FutureWarning'') line
   \<or> contains (js ''UserWarning'') line
   \<or> contains (js ''LoRACompatibleLinear'') line
   \<or> contains_ci (js ''deprecated'') line
   \<or> contains_ci (js ''tokenizers parallelism'') line
   \<or> contains_ci (js ''huggingface hub telemetry'') line
   \<or> (contains (js ''MKL'') line \<or> contains (js ''OpenBLAS'') line
      \<or> contains (js ''OMP'') line \<or> contains (js ''KMP'') line)"

text \<open>The argument is the text of the buffer (\<open>raw.toString()\<close>) or \<open>String(raw)\<close>.\<close>

definition sanitizeCliOutput :: "jsstring \<Rightarrow> jsstring" where
  "sanitizeCliOutput text =
     trim (join_with [0x0A] (filter (\<lambda>line. \<not> noisy line) (split_lines text)))"

section \<open>Speed slider (\<open>sliderToAtempo\<close>)\<close>

text \<open>
  The argument is \<open>number | undefined | null\<close>. \<open>Number.isFinite\<close> holds of a finite
  number only. Arithmetic on doubles is exact arithmetic followed by rounding to a double;
  the rounding is the parameter \<open>rnd\<close>, and \<open>rnd (7/10)\<close> is the literal \<open>0.7\<close>.
\<close>

datatype js_number = Undefined | Null | NaN | PosInfinity | NegInfinity | Finite real

definition sliderToAtempo :: "(real \<Rightarrow> real) \<Rightarrow> js_number \<Rightarrow> real" where
  "sliderToAtempo rnd sliderValue =
     (let s = max 0 (min 1 (case sliderValue of Finite x \<Rightarrow> x | _ \<Rightarrow> rnd (7/10)))
      in rnd (1/2 + rnd (1/2 * s)))"

text \<open>
  The factor \<open>adjustAudioSpeed\<close> hands to \<open>ffmpeg\<close> in \<open>atempo=...\<close>, from the submitted
  \<open>speechSpeed\<close>: the handler takes \<open>bookData.speechSpeed || 0.7\<close>, so that \<open>undefined\<close>,
  \<open>null\<close>, \<open>NaN\<close> and \<open>0\<close> stand for \<open>0.7\<close>, and \<open>adjustAudioSpeed\<close> applies
  \<open>sliderToAtempo\<close> to it.
\<close>

definition stage_atempo :: "(real \<Rightarrow> real) \<Rightarrow> js_number \<Rightarrow> real" where
  "stage_atempo rnd speechSpeed =
     sliderToAtempo rnd
       (case speechSpeed of
          Finite x \<Rightarrow> if x = 0 then Finite (rnd (7/10)) else Finite x
        | PosInfinity \<Rightarrow> PosInfinity
        | NegInfinity \<Rightarrow> NegInfinity
        | _ \<Rightarrow> Finite (rnd (7/10)))"

text \<open>
  What is used of the rounding of IEEE doubles to nearest: it is monotone, and it leaves a
  double as it is; among the doubles are the numbers \<open>k / 2 ^ m\<close> with \<open>\<bar>k\<bar> \<le> 2 ^ 53\<close> and
  \<open>m \<le> 1000\<close>, so the integers up to \<open>2 ^ 53\<close> and \<open>1/2\<close>.
\<close>

definition rounds_to_double :: "(real \<Rightarrow> real) \<Rightarrow> bool" where
  "rounds_to_double rnd \<longleftrightarrow>
     (\<forall>x y. x \<le> y \<longrightarrow> rnd x \<le> rnd y)
   \<and> (\<forall>(k::int) (m::nat). \<bar>k\<bar> \<le> 2 ^ 53 \<and> m \<le> 1000 \<longrightarrow>
         rnd (of_int k / 2 ^ m) = of_int k / 2 ^ m)"

section \<open>Audio container splicer (\<open>combineWavs\<close>)\<close>

type_synonym byte = "8 word"
type_synonym buffer = "byte list"

text \<open>
  What \<open>combineWavs\<close> throws: the three errors it raises itself, the \<open>RangeError\<close> of a
  buffer read or write out of range, the \<open>TypeError\<close> of reading a field of \<open>infos[0]\<close> when
  there is no input, and the rejection of \<open>fs.readFile\<close>.
\<close>

datatype wav_error =
  NotRiffWave | MissingFmtOrData | FormatMismatch | OutOfRange | NoFirstInfo | ReadFailed

record WavInfo =
  format :: nat
  channels :: nat
  sampleRate :: nat
  bitsPerSample :: nat
  dataOffset :: nat
  dataLength :: nat
  buffer :: buffer

text \<open>The bytes \<open>header.write(s, off, 4, 'ascii')\<close> stores for an ASCII literal.\<close>

definition ascii_bytes :: "string \<Rightarrow> buffer" where
  "ascii_bytes s = map (\<lambda>c. of_nat (of_char c)) s"

text \<open>
  \<open>buf.toString('ascii', a, b)\<close>, as the bytes of its code units: the range is clipped to
  the buffer and the decoder clears the highest bit of every byte.
\<close>

definition toAscii :: "buffer \<Rightarrow> nat \<Rightarrow> nat \<Rightarrow> buffer" where
  "toAscii buf a b = map (\<lambda>x. x AND 0x7F) (take (b - a) (drop a buf))"

definition readUInt16LE :: "buffer \<Rightarrow> nat \<Rightarrow> wav_error + nat" where
  "readUInt16LE buf off =
     (if off + 2 \<le> length buf
      then Inr (unat (buf ! off) + 256 * unat (buf ! (off + 1)))
      else Inl OutOfRange)"

definition readUInt32LE :: "buffer \<Rightarrow> nat \<Rightarrow> wav_error + nat" where
  "readUInt32LE buf off =
     (if off + 4 \<le> length buf
      then Inr (unat (buf ! off) + 256 * unat (buf ! (off + 1))
                + 65536 * unat (buf ! (off + 2)) + 16777216 * unat (buf ! (off + 3)))
      else Inl OutOfRange)"

text \<open>The four reads of the \<open>fmt\<close> branch, in the order of the source.\<close>

definition read_fmt :: "buffer \<Rightarrow> nat \<Rightarrow> WavInfo \<Rightarrow> wav_error + WavInfo" where
  "read_fmt buf chunkStart info =
     (case readUInt16LE buf (chunkStart + 0) of Inl e \<Rightarrow> Inl e | Inr f \<Rightarrow>
      case readUInt16LE buf (chunkStart + 2) of Inl e \<Rightarrow> Inl e | Inr c \<Rightarrow>
      case readUInt32LE buf (chunkStart + 4) of Inl e \<Rightarrow> Inl e | Inr r \<Rightarrow>
      case readUInt16LE buf (chunkStart + 14) of Inl e \<Rightarrow> Inl e | Inr b \<Rightarrow>
        Inr (info\<lparr>format := f, channels := c, sampleRate := r, bitsPerSample := b\<rparr>))"

text \<open>
  The \<open>while (pos + 8 <= buf.length)\<close> loop; its state is \<open>pos\<close>, the flags \<open>fmtFound\<close> and
  \<open>dataFound\<close>, and the six variables gathered in \<open>info\<close>; \<open>sz\<close> is the variable \<open>size\<close>.
\<close>

function parse_chunks ::
  "buffer \<Rightarrow> nat \<Rightarrow> bool \<Rightarrow> bool \<Rightarrow> WavInfo \<Rightarrow> wav_error + bool \<times> bool \<times> WavInfo" where
  "parse_chunks buf pos fmtFound dataFound info =
     (if pos + 8 \<le> length buf then
        (case readUInt32LE buf (pos + 4) of
           Inl e \<Rightarrow> Inl e
         | Inr sz \<Rightarrow>
             if toAscii buf pos (pos + 4) = ascii_bytes ''fmt '' then
               (case read_fmt buf (pos + 8) info of
                  Inl e \<Rightarrow> Inl e
                | Inr info' \<Rightarrow>
                    parse_chunks buf (pos + 8 + sz + sz mod 2) True dataFound info')
             else if toAscii buf pos (pos + 4) = ascii_bytes ''data'' then
               parse_chunks buf (pos + 8 + sz + sz mod 2) fmtFound True
                 (info\<lparr>dataOffset := pos + 8, dataLength := sz\<rparr>)
             else parse_chunks buf (pos + 8 + sz + sz mod 2) fmtFound dataFound info)
      else Inr (fmtFound, dataFound, info))"
  by pat_completeness auto
termination
  by (relation "measure (\<lambda>(buf, pos, fmtFound, dataFound, info). length buf - pos)") auto

declare parse_chunks.simps [simp del]

definition parseWav :: "buffer \<Rightarrow> wav_error + WavInfo" where
  "parseWav buf =
     (if toAscii buf 0 4 \<noteq> ascii_bytes ''RIFF'' \<or> toAscii buf 8 12 \<noteq> ascii_bytes ''WAVE''
      then Inl NotRiffWave
      else case parse_chunks buf 12 False False
                  \<lparr>format = 1, channels = 1, sampleRate = 16000, bitsPerSample = 16,
                   dataOffset = 0, dataLength = 0, buffer = buf\<rparr> of
             Inl e \<Rightarrow> Inl e
           | Inr (fmtFound, dataFound, info) \<Rightarrow>
               if \<not> fmtFound \<or> \<not> dataFound then Inl MissingFmtOrData else Inr info)"

text \<open>
  The file store is a map from paths to contents. The first loop reads and parses the
  inputs in order and stops at the first failure.
\<close>

primrec read_infos :: "('p \<rightharpoonup> buffer) \<Rightarrow> 'p list \<Rightarrow> wav_error + WavInfo list" where
  "read_infos fs [] = Inr []"
| "read_infos fs (f # rest) =
     (case fs f of
        None \<Rightarrow> Inl ReadFailed
      | Some buf \<Rightarrow>
          (case parseWav buf of
             Inl e \<Rightarrow> Inl e
           | Inr info \<Rightarrow>
               (case read_infos fs rest of
                  Inl e \<Rightarrow> Inl e
                | Inr infos \<Rightarrow> Inr (info # infos))))"

definition same_format :: "WavInfo \<Rightarrow> WavInfo \<Rightarrow> bool" where
  "same_format first i \<longleftrightarrow>
     \<not> (format i \<noteq> format first \<or> channels i \<noteq> channels first
        \<or> sampleRate i \<noteq> sampleRate first \<or> bitsPerSample i \<noteq> bitsPerSample first)"

text \<open>
  The writes of the header. A write throws a \<open>RangeError\<close> when the value exceeds the
  field, and stores the integer part of the value otherwise. \<open>byteRate\<close> and \<open>blockAlign\<close>
  are products with \<open>bitsPerSample / 8\<close>, which need not be whole: the \<open>_8\<close> writes take
  eight times the value, so that the value is \<open>v8 / 8\<close>, exceeds the field exactly when \<open>v8\<close>
  exceeds eight times the bound, and has the integer part \<open>v8 div 8\<close>. (Such a product is a
  double without rounding whenever it is within the bound, and otherwise stays beyond it
  after rounding.)
\<close>

definition writeUInt16LE :: "nat \<Rightarrow> wav_error + buffer" where
  "writeUInt16LE v = (if v \<le> 0xFFFF then Inr [of_nat v, of_nat (v div 256)] else Inl OutOfRange)"

definition writeUInt32LE :: "nat \<Rightarrow> wav_error + buffer" where
  "writeUInt32LE v =
     (if v \<le> 0xFFFFFFFF
      then Inr [of_nat v, of_nat (v div 256), of_nat (v div 65536), of_nat (v div 16777216)]
      else Inl OutOfRange)"

definition writeUInt16LE_8 :: "nat \<Rightarrow> wav_error + buffer" where
  "writeUInt16LE_8 v8 = (if v8 \<le> 8 * 0xFFFF then writeUInt16LE (v8 div 8) else Inl OutOfRange)"

definition writeUInt32LE_8 :: "nat \<Rightarrow> wav_error + buffer" where
  "writeUInt32LE_8 v8 = (if v8 \<le> 8 * 0xFFFFFFFF then writeUInt32LE (v8 div 8) else Inl OutOfRange)"

text \<open>A field written after the bytes so far; the first write that throws ends the header.\<close>

definition then_write :: "wav_error + buffer \<Rightarrow> wav_error + buffer \<Rightarrow> wav_error + buffer" where
  "then_write sofar field =
     (case sofar of Inl e \<Rightarrow> Inl e
      | Inr bs \<Rightarrow> (case field of Inl e \<Rightarrow> Inl e | Inr fbs \<Rightarrow> Inr (bs @ fbs)))"

definition wav_header :: "WavInfo \<Rightarrow> nat \<Rightarrow> wav_error + buffer" where
  "wav_header first totalData =
     then_write (then_write (then_write (then_write (then_write (then_write (then_write
     (then_write (then_write (then_write (then_write (then_write
       (Inr (ascii_bytes ''RIFF''))
       (writeUInt32LE (4 + (8 + 16) + (8 + totalData))))
       (Inr (ascii_bytes ''WAVE'')))
       (Inr (ascii_bytes ''fmt '')))
       (writeUInt32LE 16))
       (writeUInt16LE (format first)))
       (writeUInt16LE (channels first)))
       (writeUInt32LE (sampleRate first)))
       (writeUInt32LE_8 (sampleRate first * channels first * bitsPerSample first)))
       (writeUInt16LE_8 (channels first * bitsPerSample first)))
       (writeUInt16LE (bitsPerSample first)))
       (Inr (ascii_bytes ''data'')))
       (writeUInt32LE totalData)"

text \<open>\<open>i.buffer.subarray(i.dataOffset, i.dataOffset + i.dataLength)\<close>, clipped to the buffer.\<close>

definition pcm_part :: "WavInfo \<Rightarrow> buffer" where
  "pcm_part i = take (dataLength i) (drop (dataOffset i) (buffer i))"

text \<open>
  The result is what was thrown, if anything, and the file store afterwards. Creating the
  directory and writing the file are the last two statements, and are taken to succeed.
\<close>

definition combineWavs ::
  "('p \<rightharpoonup> buffer) \<Rightarrow> 'p list \<Rightarrow> 'p \<Rightarrow> wav_error option \<times> ('p \<rightharpoonup> buffer)" where
  "combineWavs fs inputFiles outputFile =
     (case read_infos fs inputFiles of
        Inl e \<Rightarrow> (Some e, fs)
      | Inr infos \<Rightarrow>
          (case infos of
             [] \<Rightarrow> (Some NoFirstInfo, fs)
           | first # others \<Rightarrow>
               if \<not> list_all (same_format first) others then (Some FormatMismatch, fs)
               else (case wav_header first (sum_list (map dataLength infos)) of
                       Inl e \<Rightarrow> (Some e, fs)
                     | Inr header \<Rightarrow>
                         (None, fs(outputFile \<mapsto> header @ concat (map pcm_part infos))))))"


text \<open>
  For stating the properties: the little-endian bytes of a value, the 44 bytes of a header
  with given fields, and the bounds on the four fields of a format descriptor, each read
  from a field of 16 or 32 bits.
\<close>

definition le16 :: "nat \<Rightarrow> buffer" where "le16 v = [of_nat v, of_nat (v div 256)]"

definition le32 :: "nat \<Rightarrow> buffer" where
  "le32 v = [of_nat v, of_nat (v div 256), of_nat (v div 65536), of_nat (v div 16777216)]"

definition canon :: "nat \<Rightarrow> nat \<Rightarrow> nat \<Rightarrow> nat \<Rightarrow> nat \<Rightarrow> nat \<Rightarrow> nat \<Rightarrow> nat \<Rightarrow> buffer" where
  "canon R F C S BR BA B T =
     ascii_bytes ''RIFF'' @ le32 R @ ascii_bytes ''WAVE'' @ ascii_bytes ''fmt '' @ le32 16
     @ le16 F @ le16 C @ le32 S @ le32 BR @ le16 BA @ le16 B @ ascii_bytes ''data'' @ le32 T"

definition fields_fit :: "WavInfo \<Rightarrow> bool" where
  "fields_fit i \<longleftrightarrow> format i \<le> 0xFFFF \<and> channels i \<le> 0xFFFF \<and> sampleRate i \<le> 0xFFFFFFFF
      \<and> bitsPerSample i \<le> 0xFFFF"

section \<open>Job registry and stage pipeline (\<open>process-book-complete\<close>)\<close>

datatype job_state = Processing | Completed | Failed

text \<open>
  \<open>JobStatus\<close>. The stage is always one of the ASCII literals of the source; messages are
  built from run-time text.
\<close>

record JobStatus =
  stage :: string
  progress :: int
  message :: jsstring
  status :: job_state
  filename :: "jsstring option"
  title :: "jsstring option"
  files_created :: "(string \<times> bool) list option"

text \<open>
  The argument of \<open>update\<close>: every call of the source gives stage, progress and message,
  and some give \<open>status\<close> and \<open>files_created\<close>.
\<close>

record patch =
  p_stage :: string
  p_progress :: int
  p_message :: jsstring
  p_status :: "job_state option"
  p_files_created :: "(string \<times> bool) list option"

text \<open>\<open>activeJobs[jobId] = { ...activeJobs[jobId], ...patch }\<close>.\<close>

definition update :: "JobStatus \<Rightarrow> patch \<Rightarrow> JobStatus" where
  "update job p =
     job\<lparr>stage := p_stage p, progress := p_progress p, message := p_message p,
         status := (case p_status p of None \<Rightarrow> status job | Some st \<Rightarrow> st),
         files_created := (case p_files_created p of None \<Rightarrow> files_created job
                           | Some fc \<Rightarrow> Some fc)\<rparr>"

definition patch_of :: "string \<Rightarrow> int \<Rightarrow> jsstring \<Rightarrow> patch" where
  "patch_of st pr msg =
     \<lparr>p_stage = st, p_progress = pr, p_message = msg, p_status = None, p_files_created = None\<rparr>"

text \<open>The values the registry entry of the job takes: before the writes and after each.\<close>

primrec writes :: "JobStatus \<Rightarrow> patch list \<Rightarrow> JobStatus list" where
  "writes job [] = [job]"
| "writes job (p # ps) = job # writes (update job p) ps"

text \<open>An exception: the name and the message of the \<open>Error\<close> object.\<close>

datatype js_error = JsError (err_name: jsstring) (err_message: jsstring)

definition new_Error :: "jsstring \<Rightarrow> js_error" where
  "new_Error msg = JsError (js ''Error'') msg"

text \<open>\<open>String(e)\<close>, that is \<open>Error.prototype.toString\<close>.\<close>

definition error_toString :: "js_error \<Rightarrow> jsstring" where
  "error_toString e =
     (if err_name e = [] then err_message e
      else if err_message e = [] then err_name e
      else err_name e @ js '': '' @ err_message e)"

text \<open>\<open>e?.message || String(e)\<close>.\<close>

definition catch_message :: "js_error \<Rightarrow> jsstring" where
  "catch_message e = (if err_message e \<noteq> [] then err_message e else error_toString e)"

text \<open>\<open>String(n)\<close> for a natural number, and for an exit code, which is \<open>null\<close> after a signal.\<close>

function decimal :: "nat \<Rightarrow> jsstring" where
  "decimal n = (if n < 10 then [of_nat (48 + n)] else decimal (n div 10) @ [of_nat (48 + n mod 10)])"
  by pat_completeness auto
termination
  by (relation "measure id") auto

declare decimal.simps [simp del]

definition code_string :: "nat option \<Rightarrow> jsstring" where
  "code_string code = (case code of None \<Rightarrow> js ''null'' | Some n \<Rightarrow> decimal n)"

text \<open>
  How a spawned process ends: the \<open>error\<close> event with the message of its error, or the \<open>close\<close>
  event with the exit code and what was gathered from \<open>stderr\<close>, as text.
\<close>

datatype proc_outcome = SpawnError jsstring | Closed "nat option" jsstring

text \<open>The audio directory: the fragment of each chunk and the output file.\<close>

datatype audio_path = ChunkOut nat | OutPath

text \<open>
  Everything outside the program that the run of one job depends on: the submitted book,
  the outcome of every file operation that can throw and of every process, the text read
  back from the markdown file, the fragments the synthesis left in the audio directory,
  the messages the runtime gives its own errors, the percentage shown while the speed is
  adjusted, \<open>String(Math.round((speechSpeed ?? 0.7) * 100))\<close>, and the rounding of doubles.
  The submission has passed the checks of the handler: the title is not empty and the
  file is a PDF or a TXT.
\<close>

record world =
  rounding :: "real \<Rightarrow> real"
  fileName :: jsstring
  bookTitle :: jsstring
  isPdf :: bool
  voiceCloning :: bool
  speedPercent :: jsstring
  writeSource :: "js_error option"
  hasPdfCli :: bool
  pdfCli :: proc_outcome
  readTxt :: "js_error option"
  writeMd :: "js_error option"
  readMd :: "js_error + jsstring"
  hasTtsCli :: bool
  writeChunkText :: "nat \<Rightarrow> js_error option"
  ttsCli :: "nat \<Rightarrow> proc_outcome"
  unlinkChunkText :: "nat \<Rightarrow> js_error option"
  audioDir :: "audio_path \<rightharpoonup> buffer"
  runtimeMessage :: "wav_error \<Rightarrow> jsstring"
  ffmpeg :: proc_outcome
  replaceAudio :: "js_error option"
  unlinkChunk :: "nat \<Rightarrow> js_error option"
  writeInfo :: "js_error option"
  hasWhisperCli :: bool
  whisperCli :: proc_outcome

text \<open>The record written when the job is created.\<close>

definition initial :: "world \<Rightarrow> JobStatus" where
  "initial w =
     \<lparr>stage = ''starting'', progress = 0,
      message = js ''Started processing '' @ [0x27] @ bookTitle w @ [0x27],
      status = Processing, filename = Some (fileName w), title = Some (bookTitle w),
      files_created = None\<rparr>"

text \<open>
  A stage is what it throws, if anything, and the updates it makes before that. In the
  messages, \<open>0x2013\<close> is the dash of \<open>30\<emdash>60%\<close> and \<open>0x2248\<close> the sign of \<open>almost equal\<close>.
\<close>

type_synonym stage_result = "js_error option \<times> patch list"

text \<open>
  A statement in a \<open>try\<close> of its own whose \<open>catch\<close> is empty or only warns: whatever the
  attempt throws, what follows runs.
\<close>

definition ignoring :: "js_error option \<Rightarrow> 'a \<Rightarrow> 'a" where
  "ignoring attempt rest = (case attempt of None \<Rightarrow> rest | Some e \<Rightarrow> rest)"

definition save_stage :: "world \<Rightarrow> stage_result" where
  "save_stage w =
     (writeSource w,
      [patch_of ''saving_file'' 5
         (js ''Saving '' @ (if isPdf w then js ''PDF'' else js ''TXT'')
          @ js '' (0'' @ [0x2013] @ js ''30%)...'')])"

text \<open>The promise around \<open>pdf_cli\<close>: what it is rejected with, if it is.\<close>

definition pdf_convert :: "world \<Rightarrow> js_error option" where
  "pdf_convert w =
     (if \<not> hasPdfCli w
      then Some (new_Error
             (js ''PDF CLI executable not found. Please ensure pdf_cli.exe is available.''))
      else case pdfCli w of
             SpawnError m \<Rightarrow> Some (new_Error (js ''PDF CLI spawn failed: '' @ m))
           | Closed code stderr \<Rightarrow>
               if code = Some 0 then None
               else Some (new_Error (js ''pdf_cli exited '' @ code_string code @ js '': '' @ stderr)))"

definition extract_stage :: "world \<Rightarrow> stage_result" where
  "extract_stage w =
     (if isPdf w then
        (let converting = patch_of ''converting_pdf'' 10
               (js ''Converting PDF to text (0'' @ [0x2013] @ js ''30%)...'')
         in case pdf_convert w of
              Some e \<Rightarrow> (Some e, [converting])
            | None \<Rightarrow> (None, [converting, patch_of ''converted_pdf'' 30 (js ''PDF converted (30%)'')]))
      else
        (let converting = patch_of ''converting_txt'' 10
               (js ''Processing TXT file (0'' @ [0x2013] @ js ''30%)...'')
         in case readTxt w of
              Some e \<Rightarrow> (Some e, [converting])
            | None \<Rightarrow>
                (case writeMd w of
                   Some e \<Rightarrow> (Some e, [converting])
                 | None \<Rightarrow>
                     (None, [converting, patch_of ''converted_txt'' 30 (js ''TXT processed (30%)'')]))))"

text \<open>Reading the markdown file back; looking for the voice sample throws nothing.\<close>

definition read_stage :: "world \<Rightarrow> stage_result" where
  "read_stage w = (case readMd w of Inl e \<Rightarrow> (Some e, []) | Inr mdText \<Rightarrow> (None, []))"

text \<open>\<open>30 + Math.floor((i / Math.max(1, totalChunks)) * 30)\<close>, on doubles.\<close>

definition generating_progress :: "(real \<Rightarrow> real) \<Rightarrow> nat \<Rightarrow> nat \<Rightarrow> int" where
  "generating_progress rnd i totalChunks =
     30 + \<lfloor>rnd (rnd (real i / real (max 1 totalChunks)) * 30)\<rfloor>"

text \<open>The \<open>close\<close> handler of the synthesis process: what the promise is rejected with.\<close>

definition tts_close :: "nat option \<Rightarrow> jsstring \<Rightarrow> js_error option" where
  "tts_close code stderr =
     (if code = Some 0 then None
      else
        (let cleaned = sanitizeCliOutput stderr;
             tail = (if cleaned \<noteq> [] then js '': '' @ cleaned else [])
         in if code_string code = js ''3221225477''
            then Some (new_Error
                   (js ''tts_cli encountered an access violation (0xC0000005). Try shorter text and ensure sufficient memory''
                    @ tail))
            else Some (new_Error (js ''tts_cli exited '' @ code_string code @ tail))))"

definition tts_run :: "world \<Rightarrow> nat \<Rightarrow> js_error option" where
  "tts_run w i =
     (if \<not> hasTtsCli w
      then Some (new_Error
             (js ''TTS CLI executable not found. Please ensure main_cli.exe is available.''))
      else case ttsCli w i of
             SpawnError m \<Rightarrow> Some (new_Error (js ''TTS CLI spawn failed: '' @ m))
           | Closed code stderr \<Rightarrow> tts_close code stderr)"

definition generating :: "world \<Rightarrow> nat \<Rightarrow> nat \<Rightarrow> patch" where
  "generating w i totalChunks =
     patch_of ''generating_audio'' (generating_progress (rounding w) i totalChunks)
       (js ''Generating audio chunk '' @ decimal (i + 1) @ js ''/'' @ decimal totalChunks
        @ js '' (30'' @ [0x2013] @ js ''60%)...'')"

text \<open>
  The loop over the chunks, on the indices still to do: the text of the chunk is written
  to a temporary file, then comes the update, then the process, then the removal of the
  temporary file, whose failure is ignored.
\<close>

primrec tts_chunks :: "world \<Rightarrow> nat \<Rightarrow> nat list \<Rightarrow> stage_result" where
  "tts_chunks w totalChunks [] = (None, [])"
| "tts_chunks w totalChunks (i # rest) =
     (case writeChunkText w i of
        Some e \<Rightarrow> (Some e, [])
      | None \<Rightarrow>
          (case tts_run w i of
             Some e \<Rightarrow> (Some e, [generating w i totalChunks])
           | None \<Rightarrow>
               ignoring (unlinkChunkText w i)
                 (case tts_chunks w totalChunks rest of
                    (r, ps) \<Rightarrow> (r, generating w i totalChunks # ps))))"

definition tts_stage :: "world \<Rightarrow> nat \<Rightarrow> stage_result" where
  "tts_stage w totalChunks =
     (case tts_chunks w totalChunks [0..<totalChunks] of
        (r, ps) \<Rightarrow>
          (r, patch_of ''generating_audio'' 30
                (js ''Preparing audio generation (30'' @ [0x2013] @ js ''60%)...'') # ps))"

text \<open>What \<open>combineWavs\<close> throws, as the exception the handler catches.\<close>

definition wav_exception :: "world \<Rightarrow> wav_error \<Rightarrow> js_error" where
  "wav_exception w e =
     (case e of
        NotRiffWave \<Rightarrow> new_Error (js ''Not a RIFF/WAVE file'')
      | MissingFmtOrData \<Rightarrow> new_Error (js ''Invalid WAV: missing fmt or data'')
      | FormatMismatch \<Rightarrow> new_Error (js ''WAV format mismatch between chunks'')
      | OutOfRange \<Rightarrow> JsError (js ''RangeError'') (runtimeMessage w OutOfRange)
      | NoFirstInfo \<Rightarrow> JsError (js ''TypeError'') (runtimeMessage w NoFirstInfo)
      | ReadFailed \<Rightarrow> JsError (js ''Error'') (runtimeMessage w ReadFailed))"

definition combine_stage :: "world \<Rightarrow> nat \<Rightarrow> stage_result" where
  "combine_stage w totalChunks =
     (map_option (wav_exception w)
        (fst (combineWavs (audioDir w) (map ChunkOut [0..<totalChunks]) OutPath)),
      [patch_of ''combining_audio'' 58 (js ''Combining audio chunks ('' @ [0x2248] @ js ''60%)...'')])"

text \<open>\<open>adjustAudioSpeed\<close>: what its promise is rejected with, if it is.\<close>

definition adjustAudioSpeed :: "world \<Rightarrow> js_error option" where
  "adjustAudioSpeed w =
     (case ffmpeg w of
        SpawnError m \<Rightarrow> Some (new_Error (js ''FFmpeg speed adjustment failed: '' @ m))
      | Closed code stderr \<Rightarrow>
          if code = Some 0 then
            (case replaceAudio w of
               Some e \<Rightarrow> Some (new_Error (js ''Failed to replace audio file: '' @ error_toString e))
             | None \<Rightarrow> None)
          else Some (new_Error (js ''FFmpeg speed adjustment failed with code ''
                      @ code_string code @ js '': '' @ sanitizeCliOutput stderr)))"

definition speed_stage :: "world \<Rightarrow> stage_result" where
  "speed_stage w =
     (if \<not> voiceCloning w then
        (adjustAudioSpeed w,
         [patch_of ''adjusting_speed'' 60
            (js ''Adjusting speech speed to '' @ speedPercent w @ js ''% ('' @ [0x2248]
             @ js ''62%)...'')])
      else (None, []))"

text \<open>
  The removal of the fragments, each in a \<open>try\<close> with an empty \<open>catch\<close>, and the write of
  \<open>info.json\<close>, in a \<open>try\<close> whose \<open>catch\<close> only warns. Neither updates the registry.
\<close>

primrec cleanup :: "world \<Rightarrow> nat list \<Rightarrow> stage_result" where
  "cleanup w [] = (None, [])"
| "cleanup w (i # rest) = ignoring (unlinkChunk w i) (cleanup w rest)"

definition cleanup_stage :: "world \<Rightarrow> nat \<Rightarrow> stage_result" where
  "cleanup_stage w totalChunks = cleanup w [0..<totalChunks]"

definition metadata_stage :: "world \<Rightarrow> stage_result" where
  "metadata_stage w = ignoring (writeInfo w) (None, [])"

text \<open>The promise around \<open>whisperx_cli\<close>, and the \<open>try\<close> around it, whose \<open>catch\<close> only warns.\<close>

definition whisper_run :: "world \<Rightarrow> js_error option" where
  "whisper_run w =
     (if \<not> hasWhisperCli w
      then Some (new_Error
             (js ''WhisperX CLI executable not found. Please ensure whisperx_cli.exe is available.''))
      else case whisperCli w of
             SpawnError m \<Rightarrow> Some (new_Error (js ''WhisperX CLI spawn failed: '' @ m))
           | Closed code stderr \<Rightarrow>
               if code = Some 0 then None
               else Some (new_Error
                      (js ''whisperx_cli exited '' @ code_string code @ js '': '' @ stderr)))"

definition transcribe_stage :: "world \<Rightarrow> stage_result" where
  "transcribe_stage w =
     (let transcribing = patch_of ''transcribing'' 60
            (js ''Transcribing audio (60'' @ [0x2013] @ js ''90%)...'')
      in case whisper_run w of
           Some e \<Rightarrow> (None, [transcribing])
         | None \<Rightarrow>
             (None, [transcribing, patch_of ''transcribed'' 90 (js ''Transcription complete (90%)'')]))"

definition final_stage :: "world \<Rightarrow> stage_result" where
  "final_stage w =
     (None,
      [patch_of ''finalizing'' 95 (js ''Finalizing...''),
       \<lparr>p_stage = ''completed'', p_progress = 100,
        p_message = js ''Processed '' @ [0x27] @ bookTitle w @ [0x27] @ js '' successfully'',
        p_status = Some Completed, p_files_created = Some [(''audio'', True)]\<rparr>])"

text \<open>
  The stages in the order of the \<open>try\<close> block. The chunk count is known once the markdown
  text is read; without the text nothing follows.
\<close>

definition stages :: "world \<Rightarrow> stage_result list" where
  "stages w =
     [save_stage w, extract_stage w, read_stage w]
     @ (case readMd w of
          Inl e \<Rightarrow> []
        | Inr mdText \<Rightarrow>
            (let totalChunks = length (splitTextIntoChunks mdText 300)
             in [tts_stage w totalChunks, combine_stage w totalChunks, speed_stage w,
                 cleanup_stage w totalChunks, metadata_stage w, transcribe_stage w,
                 final_stage w]))"

text \<open>Statements in sequence: the first exception ends the block.\<close>

fun run :: "stage_result list \<Rightarrow> stage_result" where
  "run [] = (None, [])"
| "run ((Some e, ps) # rest) = (Some e, ps)"
| "run ((None, ps) # rest) = (case run rest of (r, qs) \<Rightarrow> (r, ps @ qs))"

text \<open>The \<open>catch\<close> of the block.\<close>

definition failed_patch :: "js_error \<Rightarrow> patch" where
  "failed_patch e =
     \<lparr>p_stage = ''failed'', p_progress = - 1, p_message = catch_message e,
      p_status = Some Failed, p_files_created = None\<rparr>"

definition processBook :: "world \<Rightarrow> JobStatus list" where
  "processBook w =
     (case run (stages w) of
        (None, ps) \<Rightarrow> writes (initial w) ps
      | (Some e, ps) \<Rightarrow> writes (initial w) (ps @ [failed_patch e]))"

text \<open>
  A concrete run, the scenario of the specification: the TXT book \<open>Alice\<close> with the text
  \<open>Hello world. This is a test.\<close>, every file operation and process succeeding, exact
  arithmetic, and one fragment of 1000 payload bytes (16 bits, mono, 22050 Hz) left by the
  synthesis.
\<close>

definition sample_world :: world where
  "sample_world =
     \<lparr>rounding = (\<lambda>x. x), fileName = js ''alice.txt'', bookTitle = js ''Alice'',
      isPdf = False, voiceCloning = False, speedPercent = js ''70'', writeSource = None,
      hasPdfCli = True, pdfCli = Closed (Some 0) [], readTxt = None, writeMd = None,
      readMd = Inr (js ''Hello world. This is a test.''), hasTtsCli = True,
      writeChunkText = (\<lambda>i. None), ttsCli = (\<lambda>i. Closed (Some 0) []),
      unlinkChunkText = (\<lambda>i. None),
      audioDir = [ChunkOut 0 \<mapsto> canon 1036 1 1 22050 44100 2 16 1000 @ replicate 1000 0],
      runtimeMessage = (\<lambda>e. js ''runtime error''), ffmpeg = Closed (Some 0) [],
      replaceAudio = None, unlinkChunk = (\<lambda>i. None), writeInfo = None,
      hasWhisperCli = True, whisperCli = Closed (Some 0) []\<rparr>"

section \<open>Properties of the text chunker\<close>

lemma terminal_not_space: "is_terminal c \<Longrightarrow> \<not> is_space c"
  by (auto simp: is_terminal_def is_space_def)

lemma join_snoc: "join_with sep (xs @ [s]) = (if xs = [] then s else join_with sep xs @ sep @ s)"
  by (induction sep xs rule: join_with.induct) auto

lemma join_append:
  "xs \<noteq> [] \<Longrightarrow> ys \<noteq> [] \<Longrightarrow> join_with sep (xs @ ys) = join_with sep xs @ sep @ join_with sep ys"
  by (induction sep xs rule: join_with.induct) (auto simp: neq_Nil_conv)

lemma join_Nil_iff: "\<forall>s\<in>set g. s \<noteq> [] \<Longrightarrow> join_with sep g = [] \<longleftrightarrow> g = []"
  by (induction sep g rule: join_with.induct) auto

lemma length_le_join: "s \<in> set g \<Longrightarrow> length s \<le> length (join_with sep g)"
  by (induction sep g rule: join_with.induct) auto

lemma length_trim: "length (trim s) \<le> length s"
proof -
  have "length (trim s) \<le> length (dropWhile is_space s)"
    unfolding trim_def using length_dropWhile_le [of is_space "rev (dropWhile is_space s)"] by simp
  also have "\<dots> \<le> length s" by (rule length_dropWhile_le)
  finally show ?thesis .
qed

lemma all_dropWhile_iff: "(\<forall>x\<in>set (dropWhile P s). P x) \<longleftrightarrow> (\<forall>x\<in>set s. P x)"
  by (induction s) auto

lemma trim_Nil_iff: "trim s = [] \<longleftrightarrow> (\<forall>c\<in>set s. is_space c)"
  by (simp add: trim_def dropWhile_eq_Nil_conv all_dropWhile_iff)

lemma trim_snoc_space: "is_space c \<Longrightarrow> trim (s @ [c]) = trim s"
proof (cases "\<forall>x\<in>set s. is_space x")
  case True
  assume "is_space c"
  with True have "trim (s @ [c]) = []" "trim s = []" by (simp_all add: trim_Nil_iff)
  then show ?thesis by simp
next
  case False
  assume c: "is_space c"
  from False obtain x where "x \<in> set s" "\<not> is_space x" by blast
  then have "dropWhile is_space (s @ [c]) = dropWhile is_space s @ [c]"
    by (simp add: dropWhile_append1)
  with c show ?thesis by (simp add: trim_def)
qed


lemma set_subset_join: "s \<in> set g \<Longrightarrow> set s \<subseteq> set (join_with sep g)"
  by (induction sep g rule: join_with.induct) auto

lemma chunk_step_cases:
  "chunk_step B (chunks, current) s =
     (if current = [] then (chunks, s)
      else if length current + 1 + length s \<le> B then (chunks, current @ [0x20] @ s)
      else (chunks @ [trim current], s))"
  by (simp add: chunk_step_def)

lemma chunk_loop_snoc: "chunk_loop B st (ss @ [s]) = chunk_step B (chunk_loop B st ss) s"
  by (induction ss arbitrary: st) auto

lemma chunk_loop_groups:
  assumes "\<forall>s\<in>set ss. s \<noteq> []"
    and "\<forall>x\<in>set gs. x \<noteq> [] \<and> (length (sjoin x) \<le> B \<or> length x = 1)"
    and "\<forall>s\<in>set g. s \<noteq> []"
    and "length (sjoin g) \<le> B \<or> length g \<le> 1"
  shows "\<exists>gs' g'. chunk_loop B (map (\<lambda>x. trim (sjoin x)) gs, sjoin g) ss
                     = (map (\<lambda>x. trim (sjoin x)) gs', sjoin g')
      \<and> concat gs' @ g' = concat gs @ g @ ss
      \<and> (\<forall>x\<in>set gs'. x \<noteq> [] \<and> (length (sjoin x) \<le> B \<or> length x = 1))
      \<and> (\<forall>s\<in>set g'. s \<noteq> [])
      \<and> (length (sjoin g') \<le> B \<or> length g' \<le> 1)
      \<and> (g \<noteq> [] \<or> ss \<noteq> [] \<longrightarrow> g' \<noteq> [])"
  using assms
proof (induction ss arbitrary: gs g)
  case Nil
  then show ?case by (intro exI [of _ gs] exI [of _ g]) simp
next
  case (Cons s ss)
  from Cons.prems have s: "s \<noteq> []" and ss: "\<forall>s\<in>set ss. s \<noteq> []" by simp_all
  from Cons.prems(3) have gnil: "sjoin g = [] \<longleftrightarrow> g = []" by (rule join_Nil_iff)
  let ?f = "\<lambda>x. trim (sjoin x)"
  consider (start) "g = []"
    | (fits) "g \<noteq> []" "length (sjoin g) + 1 + length s \<le> B"
    | (close) "g \<noteq> []" "\<not> length (sjoin g) + 1 + length s \<le> B" by blast
  then show ?case
  proof cases
    case start
    then have step: "chunk_step B (map ?f gs, sjoin g) s = (map ?f gs, sjoin [s])"
      by (simp add: chunk_step_cases)
    from Cons.IH [of gs "[s]"] ss Cons.prems(2) s
    obtain gs' g' where
      "chunk_loop B (map ?f gs, sjoin [s]) ss = (map ?f gs', sjoin g')"
      "concat gs' @ g' = concat gs @ [s] @ ss"
      "\<forall>x\<in>set gs'. x \<noteq> [] \<and> (length (sjoin x) \<le> B \<or> length x = 1)"
      "\<forall>s\<in>set g'. s \<noteq> []" "length (sjoin g') \<le> B \<or> length g' \<le> 1" "g' \<noteq> []"
      by auto
    with step start show ?thesis
      by (intro exI [of _ gs'] exI [of _ g']) simp
  next
    case fits
    then have step: "chunk_step B (map ?f gs, sjoin g) s = (map ?f gs, sjoin (g @ [s]))"
      by (simp add: chunk_step_cases gnil join_snoc)
    have len: "length (sjoin (g @ [s])) \<le> B"
      using fits by (simp add: join_snoc)
    from Cons.IH [of gs "g @ [s]"] ss Cons.prems(2,3) s len
    obtain gs' g' where
      "chunk_loop B (map ?f gs, sjoin (g @ [s])) ss = (map ?f gs', sjoin g')"
      "concat gs' @ g' = concat gs @ (g @ [s]) @ ss"
      "\<forall>x\<in>set gs'. x \<noteq> [] \<and> (length (sjoin x) \<le> B \<or> length x = 1)"
      "\<forall>s\<in>set g'. s \<noteq> []" "length (sjoin g') \<le> B \<or> length g' \<le> 1" "g' \<noteq> []"
      by auto
    with step show ?thesis
      by (intro exI [of _ gs'] exI [of _ g']) simp
  next
    case close
    then have step: "chunk_step B (map ?f gs, sjoin g) s = (map ?f (gs @ [g]), sjoin [s])"
      by (simp add: chunk_step_cases gnil)
    have g1: "length (sjoin g) \<le> B \<or> length g = 1"
      using Cons.prems(4) close(1) by (cases g) auto
    from Cons.IH [of "gs @ [g]" "[s]"] ss Cons.prems(2) s g1 close(1)
    obtain gs' g' where
      "chunk_loop B (map ?f (gs @ [g]), sjoin [s]) ss = (map ?f gs', sjoin g')"
      "concat gs' @ g' = concat (gs @ [g]) @ [s] @ ss"
      "\<forall>x\<in>set gs'. x \<noteq> [] \<and> (length (sjoin x) \<le> B \<or> length x = 1)"
      "\<forall>s\<in>set g'. s \<noteq> []" "length (sjoin g') \<le> B \<or> length g' \<le> 1" "g' \<noteq> []"
      by auto
    with step show ?thesis
      by (intro exI [of _ gs'] exI [of _ g']) simp
  qed
qed

lemma split_from_not_Nil: "split_from cur cs \<noteq> []"
  by (induction cur cs rule: split_from.induct) auto

lemma split_from_butlast:
  "s \<in> set (butlast (split_from cur cs)) \<Longrightarrow> s \<noteq> [] \<and> is_terminal (last s)"
  by (induction cur cs rule: split_from.induct)
     (auto simp: split_from_not_Nil split: if_splits)

lemma split_from_starts:
  "(cur = [] \<longrightarrow> cs = [] \<or> \<not> is_space (hd cs)) \<Longrightarrow> (cur \<noteq> [] \<longrightarrow> \<not> is_space (hd cur))
   \<Longrightarrow> s \<in> set (split_from cur cs) \<Longrightarrow> s = [] \<or> \<not> is_space (hd s)"
proof (induction cur cs rule: split_from.induct)
  case (1 cur)
  then show ?case by auto
next
  case (2 cur c cs)
  show ?case
  proof (cases "is_space c \<and> cur \<noteq> [] \<and> is_terminal (last cur)")
    case True
    have dw: "dropWhile is_space cs = [] \<or> \<not> is_space (hd (dropWhile is_space cs))"
      using hd_dropWhile [of is_space cs] by blast
    from True "2.prems"(3) have "s = cur \<or> s \<in> set (split_from [] (dropWhile is_space cs))"
      by simp
    then show ?thesis
    proof
      assume "s = cur" with True "2.prems"(2) show ?thesis by simp
    next
      assume "s \<in> set (split_from [] (dropWhile is_space cs))"
      with "2.IH"(1) [OF True] dw show ?thesis by simp
    qed
  next
    case False
    with "2.prems"(3) have mem: "s \<in> set (split_from (cur @ [c]) cs)" by simp
    have "\<not> is_space (hd (cur @ [c]))"
      using "2.prems"(1,2) by (cases cur) auto
    with "2.IH"(2) [OF False] mem show ?thesis by simp
  qed
qed

lemma split_from_tl:
  "s \<in> set (tl (split_from cur cs)) \<Longrightarrow> s = [] \<or> \<not> is_space (hd s)"
proof (induction cur cs rule: split_from.induct)
  case (1 cur)
  then show ?case by simp
next
  case (2 cur c cs)
  show ?case
  proof (cases "is_space c \<and> cur \<noteq> [] \<and> is_terminal (last cur)")
    case True
    have dw: "dropWhile is_space cs = [] \<or> \<not> is_space (hd (dropWhile is_space cs))"
      using hd_dropWhile [of is_space cs] by blast
    from True "2.prems" have "s \<in> set (split_from [] (dropWhile is_space cs))" by simp
    with dw show ?thesis by (intro split_from_starts [of "[]" "dropWhile is_space cs" s]) simp_all
  next
    case False
    with "2.prems" "2.IH"(2) show ?thesis by simp
  qed
qed

lemma split_from_no_terminal:
  "\<forall>c\<in>set cur \<union> set cs. \<not> is_terminal c \<Longrightarrow> split_from cur cs = [cur @ cs]"
  by (induction cur cs rule: split_from.induct) auto

lemma split_from_single: "split_from cur cs = [x] \<Longrightarrow> x = cur @ cs"
  by (induction cur cs rule: split_from.induct)
     (auto simp: split_from_not_Nil split: if_splits)


lemma chunks_finish:
  assumes "chunk_loop B ([], []) (split_sentences text) = (map (\<lambda>x. trim (sjoin x)) gs, cur)"
    and "trim cur = trim (sjoin g)" and "trim (sjoin g) \<noteq> []"
  shows "splitTextIntoChunks text B = map (\<lambda>x. trim (sjoin x)) (gs @ [g])"
  using assms by (simp add: splitTextIntoChunks_def)

lemma terminal_last_nonblank:
  assumes "s \<in> set g" "s \<noteq> []" "\<not> is_space (last s)"
  shows "trim (sjoin g) \<noteq> []"
proof -
  have "last s \<in> set (sjoin g)"
    using set_subset_join [OF assms(1), of "[0x20]"] last_in_set [OF assms(2)] by blast
  with assms(3) show ?thesis by (auto simp: trim_Nil_iff)
qed

lemma chunks_groups:
  assumes nonblank: "\<exists>c\<in>set text. \<not> is_space c"
  shows "\<exists>G. concat G = filter (\<lambda>s. s \<noteq> []) (split_sentences text)
           \<and> (\<forall>g\<in>set G. g \<noteq> [] \<and> (length (sjoin g) \<le> B \<or> length g = 1))
           \<and> splitTextIntoChunks text B = map (\<lambda>g. trim (sjoin g)) G"
proof -
  let ?f = "\<lambda>x. trim (sjoin x)"
  define S where "S = split_sentences text"
  have S_ne: "S \<noteq> []" by (simp add: S_def split_sentences_def split_from_not_Nil)
  have S_bl: "\<And>s. s \<in> set (butlast S) \<Longrightarrow> s \<noteq> [] \<and> is_terminal (last s)"
    unfolding S_def split_sentences_def by (rule split_from_butlast)
  have S_tl: "\<And>s. s \<in> set (tl S) \<Longrightarrow> s = [] \<or> \<not> is_space (hd s)"
    unfolding S_def split_sentences_def by (rule split_from_tl)
  have S_single: "\<And>x. S = [x] \<Longrightarrow> x = text"
    using split_from_single [of "[]" "text"] unfolding S_def split_sentences_def by simp
  have S_eq: "S = butlast S @ [last S]" using S_ne by simp
  show ?thesis
  proof (cases "last S = []")
    case False
    have all: "\<forall>s\<in>set S. s \<noteq> []"
    proof
      fix s assume "s \<in> set S"
      then have "s \<in> set (butlast S) \<or> s = last S" using S_eq
        by (metis Un_iff empty_iff empty_set set_ConsD set_append)
      with S_bl False show "s \<noteq> []" by auto
    qed
    from chunk_loop_groups [of S "[]" B "[]"] all
    obtain gs g where
      run: "chunk_loop B ([], []) S = (map ?f gs, sjoin g)"
      and cat: "concat gs @ g = S"
      and gs: "\<forall>x\<in>set gs. x \<noteq> [] \<and> (length (sjoin x) \<le> B \<or> length x = 1)"
      and g: "\<forall>s\<in>set g. s \<noteq> []" "length (sjoin g) \<le> B \<or> length g \<le> 1" "g \<noteq> []"
      using S_ne by auto
    have bl: "butlast S = concat gs @ butlast g"
      using cat g(3) by (metis butlast_append)
    have nb: "trim (sjoin g) \<noteq> []"
    proof (cases "butlast g = []")
      case False
      then obtain s where s: "s \<in> set (butlast g)" by (cases "butlast g") auto
      then have "s \<in> set (butlast S)" by (simp add: bl)
      from S_bl [OF this] have "s \<noteq> []" "\<not> is_space (last s)"
        by (auto dest: terminal_not_space)
      moreover have "s \<in> set g" using s by (rule in_set_butlastD)
      ultimately show ?thesis by (intro terminal_last_nonblank [of s]) auto
    next
      case True
      with g(3) obtain z where z: "g = [z]" by (cases g) (auto split: if_splits)
      with g(1) have zne: "z \<noteq> []" by simp
      have "\<exists>c\<in>set z. \<not> is_space c"
      proof (cases "gs = []")
        case True
        with cat z have "S = [z]" by simp
        from S_single [OF this] nonblank show ?thesis by simp
      next
        case False
        then obtain x xs where "gs = x # xs" by (cases gs) auto
        with gs have "concat gs \<noteq> []" by auto
        with cat z have "z \<in> set (tl S)"
          by (metis append_is_Nil_conv in_set_conv_decomp list.sel(3) neq_Nil_conv tl_append2 list.set_intros(1))
        from S_tl [OF this] zne have "\<not> is_space (hd z)" by simp
        with zne show ?thesis by (cases z) auto
      qed
      with z show ?thesis by (simp add: trim_Nil_iff)
    qed
    have res: "splitTextIntoChunks text B = map ?f (gs @ [g])"
      using run nb by (intro chunks_finish [where cur = "sjoin g"]) (simp_all add: S_def)
    have "filter (\<lambda>s. s \<noteq> []) S = S" using all by simp
    with cat have "concat (gs @ [g]) = filter (\<lambda>s. s \<noteq> []) (split_sentences text)"
      by (simp add: S_def)
    moreover have "\<forall>x\<in>set (gs @ [g]). x \<noteq> [] \<and> (length (sjoin x) \<le> B \<or> length x = 1)"
      using gs g by (cases g) auto
    ultimately show ?thesis using res by blast
  next
    case True
    define S0 where "S0 = butlast S"
    have S0: "S = S0 @ [[]]" using S_eq True by (simp add: S0_def)
    have all: "\<forall>s\<in>set S0. s \<noteq> [] \<and> \<not> is_space (last s)"
      using S_bl by (auto simp: S0_def dest: terminal_not_space)
    have S0_ne: "S0 \<noteq> []"
    proof
      assume "S0 = []"
      with S0 have "S = [[]]" by simp
      from S_single [OF this] nonblank show False by simp
    qed
    from chunk_loop_groups [of S0 "[]" B "[]"] all
    obtain gs g where
      run: "chunk_loop B ([], []) S0 = (map ?f gs, sjoin g)"
      and cat: "concat gs @ g = S0"
      and gs: "\<forall>x\<in>set gs. x \<noteq> [] \<and> (length (sjoin x) \<le> B \<or> length x = 1)"
      and g: "\<forall>s\<in>set g. s \<noteq> []" "length (sjoin g) \<le> B \<or> length g \<le> 1" "g \<noteq> []"
      using S0_ne by auto
    from g(3) obtain s where s: "s \<in> set g" by (cases g) auto
    then have "s \<in> set S0" using cat by (metis Un_iff set_append)
    with all s have nb: "trim (sjoin g) \<noteq> []"
      by (intro terminal_last_nonblank [of s]) auto
    have jne: "sjoin g \<noteq> []" using g(1,3) by (simp add: join_Nil_iff)
    have "\<exists>cur. chunk_loop B ([], []) S = (map ?f gs, cur) \<and> trim cur = trim (sjoin g)
            \<or> chunk_loop B ([], []) S = (map ?f (gs @ [g]), [])"
      unfolding S0 chunk_loop_snoc run using jne
      by (simp add: chunk_step_cases trim_snoc_space is_space_def)
    then have res: "splitTextIntoChunks text B = map ?f (gs @ [g])"
    proof (elim exE disjE conjE)
      fix cur assume "chunk_loop B ([], []) S = (map ?f gs, cur)" "trim cur = trim (sjoin g)"
      with nb show ?thesis by (intro chunks_finish [where cur = cur]) (simp_all add: S_def)
    next
      assume "chunk_loop B ([], []) S = (map ?f (gs @ [g]), [])"
      then show ?thesis by (simp add: splitTextIntoChunks_def S_def trim_def)
    qed
    have "filter (\<lambda>s. s \<noteq> []) S = S0" using all by (simp add: S0) 
    with cat have "concat (gs @ [g]) = filter (\<lambda>s. s \<noteq> []) (split_sentences text)"
      by (simp add: S_def)
    moreover have "\<forall>x\<in>set (gs @ [g]). x \<noteq> [] \<and> (length (sjoin x) \<le> B \<or> length x = 1)"
      using gs g by (cases g) auto
    ultimately show ?thesis using res by blast
  qed
qed

lemma chunks_blank:
  assumes "\<forall>c\<in>set text. is_space c"
  shows "split_sentences text = [text]" and "splitTextIntoChunks text B = [text]"
proof -
  from assms have "\<forall>c\<in>set [] \<union> set text. \<not> is_terminal c"
    by (auto dest: terminal_not_space)
  from split_from_no_terminal [OF this] show s: "split_sentences text = [text]"
    by (simp add: split_sentences_def)
  from assms have "trim text = []" by (simp add: trim_Nil_iff)
  with s show "splitTextIntoChunks text B = [text]"
    by (simp add: splitTextIntoChunks_def chunk_step_cases)
qed

lemma dropWhile_self: "xs = [] \<or> \<not> P (hd xs) \<Longrightarrow> dropWhile P xs = xs"
  by (cases xs) auto

lemma last_dropWhile: "xs \<noteq> [] \<Longrightarrow> \<not> P (last xs) \<Longrightarrow> last (dropWhile P xs) = last xs"
  by (induction xs) (auto split: if_splits)

lemma dropWhile_keep_last: "xs \<noteq> [] \<Longrightarrow> \<not> P (last xs) \<Longrightarrow> dropWhile P xs \<noteq> []"
  by (induction xs) (auto split: if_splits)

lemma trim_join2:
  assumes "A \<noteq> []" "\<not> is_space (last A)" "C \<noteq> []" "\<not> is_space (hd C)"
  shows "trim (A @ [0x20] @ C) = trim A @ [0x20] @ trim C"
proof -
  let ?A' = "dropWhile is_space A"
  have lA: "last A \<in> set A" using assms(1) by simp
  have dA: "dropWhile is_space (A @ 0x20 # C) = ?A' @ 0x20 # C"
    using lA assms(2) by (simp add: dropWhile_append1)
  have hC: "hd C \<in> set (rev C)" using assms(3) by simp
  have dC: "dropWhile is_space (rev C @ 0x20 # rev ?A') = dropWhile is_space (rev C) @ 0x20 # rev ?A'"
    using hC assms(4) by (simp add: dropWhile_append1)
  have l: "trim (A @ [0x20] @ C) = ?A' @ [0x20] @ rev (dropWhile is_space (rev C))"
    by (simp add: trim_def dA dC)
  have A'ne: "?A' \<noteq> []" using assms(1,2) by (rule dropWhile_keep_last)
  have "last ?A' = last A" using assms(1,2) by (rule last_dropWhile)
  with A'ne assms(2) have "dropWhile is_space (rev ?A') = rev ?A'"
    by (intro dropWhile_self) (simp add: hd_rev)
  then have tA: "trim A = ?A'" by (simp add: trim_def)
  have "dropWhile is_space C = C" using assms(3,4) by (intro dropWhile_self) simp
  then have tC: "trim C = rev (dropWhile is_space (rev C))" by (simp add: trim_def)
  show ?thesis using l tA tC by simp
qed

lemma join_not_Nil: "g \<noteq> [] \<Longrightarrow> last g \<noteq> [] \<Longrightarrow> join_with sep g \<noteq> []"
  by (induction sep g rule: join_with.induct) auto

lemma last_join: "g \<noteq> [] \<Longrightarrow> last g \<noteq> [] \<Longrightarrow> last (join_with sep g) = last (last g)"
  by (induction sep g rule: join_with.induct) (auto simp: join_not_Nil)

lemma hd_join: "g \<noteq> [] \<Longrightarrow> hd g \<noteq> [] \<Longrightarrow> hd (join_with sep g) = hd (hd g)"
  by (induction sep g rule: join_with.induct) auto

lemma join_groups_trim:
  assumes "\<forall>s\<in>set xs. s \<noteq> []"
    and "\<forall>s\<in>set (butlast xs). \<not> is_space (last s)"
    and "\<forall>s\<in>set (tl xs). \<not> is_space (hd s)"
    and "concat G = xs" and "\<forall>g\<in>set G. g \<noteq> []"
  shows "sjoin (map (\<lambda>g. trim (sjoin g)) G) = trim (sjoin xs)"
  using assms
proof (induction G arbitrary: xs)
  case Nil
  then show ?case by (simp add: trim_def)
next
  case (Cons g G)
  show ?case
  proof (cases G)
    case Nil
    with Cons.prems show ?thesis by simp
  next
    case (Cons g2 G2)
    define xs2 where "xs2 = concat G"
    have g: "g \<noteq> []" and xs: "xs = g @ xs2" using Cons.prems by (simp_all add: xs2_def)
    have xs2: "xs2 \<noteq> []" using Cons Cons.prems(5) by (auto simp: xs2_def)
    have bl: "butlast xs = g @ butlast xs2" using xs xs2 by (simp add: butlast_append)
    have tl: "tl xs = tl g @ xs2" using xs g by simp
    have ih: "sjoin (map (\<lambda>g. trim (sjoin g)) G) = trim (sjoin xs2)"
    proof (rule Cons.IH)
      show "\<forall>s\<in>set xs2. s \<noteq> []" using Cons.prems(1) xs by simp
      show "\<forall>s\<in>set (butlast xs2). \<not> is_space (last s)" using Cons.prems(2) bl by simp
      show "\<forall>s\<in>set (tl xs2). \<not> is_space (hd s)" using Cons.prems(3) tl
        by (auto dest: list.set_sel(2) [OF xs2])
      show "concat G = xs2" by (simp add: xs2_def)
      show "\<forall>g\<in>set G. g \<noteq> []" using Cons.prems(5) by simp
    qed
    have lg: "last g \<in> set (butlast xs)" using bl g by simp
    have lgne: "last g \<noteq> []" using Cons.prems(1) xs g by simp
    have A: "sjoin g \<noteq> []" "\<not> is_space (last (sjoin g))"
      using Cons.prems(1) xs g Cons.prems(2) lg lgne
      by (simp_all add: join_Nil_iff last_join)
    have hx: "hd xs2 \<in> set (tl xs)" using tl xs2 by simp
    have hxne: "hd xs2 \<noteq> []" using Cons.prems(1) xs xs2 by simp
    have C: "sjoin xs2 \<noteq> []" "\<not> is_space (hd (sjoin xs2))"
      using Cons.prems(1) xs xs2 Cons.prems(3) hx hxne
      by (simp_all add: join_Nil_iff hd_join)
    have "sjoin (map (\<lambda>g. trim (sjoin g)) (g # G))
            = trim (sjoin g) @ [0x20] @ sjoin (map (\<lambda>g. trim (sjoin g)) G)"
      using Cons by simp
    also have "\<dots> = trim (sjoin g @ [0x20] @ sjoin xs2)"
      using trim_join2 [OF A C] ih by simp
    also have "\<dots> = trim (sjoin xs)"
      using join_append [OF g xs2, of "[0x20]"] xs by simp
    finally show ?thesis .
  qed
qed

lemma sentences_shape:
  assumes S_def: "S = split_sentences t" and S'_def: "S' = filter (\<lambda>s. s \<noteq> []) S"
  shows "(S = S' \<or> S = S' @ [[]])
       \<and> (\<forall>s\<in>set (butlast S'). \<not> is_space (last s))
       \<and> (\<forall>s\<in>set (tl S'). \<not> is_space (hd s))"
proof -
  have S_ne: "S \<noteq> []" by (simp add: S_def split_sentences_def split_from_not_Nil)
  have S_bl: "\<And>s. s \<in> set (butlast S) \<Longrightarrow> s \<noteq> [] \<and> is_terminal (last s)"
    unfolding S_def split_sentences_def by (rule split_from_butlast)
  have S_tl: "\<And>s. s \<in> set (tl S) \<Longrightarrow> s = [] \<or> \<not> is_space (hd s)"
    unfolding S_def split_sentences_def by (rule split_from_tl)
  have S_eq: "S = butlast S @ [last S]" using S_ne by simp
  have fb: "filter (\<lambda>s. s \<noteq> []) (butlast S) = butlast S" using S_bl by (simp add: filter_id_conv)
  show ?thesis
  proof (cases "last S = []")
    case True
    have "S' = filter (\<lambda>s. s \<noteq> []) (butlast S @ [last S])" using S_eq by (simp add: S'_def)
    then have S': "S' = butlast S" using True fb by simp
    then have 1: "S = S' @ [[]]" using S_eq True by simp
    have 2: "\<forall>s\<in>set (butlast S'). \<not> is_space (last s)"
      using S_bl S' by (auto dest: in_set_butlastD terminal_not_space)
    have "set (tl S') \<subseteq> set (tl S)" using 1 by (cases S') auto
    moreover have "\<forall>s\<in>set S'. s \<noteq> []" by (simp add: S'_def)
    ultimately have 3: "\<forall>s\<in>set (tl S'). \<not> is_space (hd s)"
      using S_tl by (metis list.set_sel(2) subsetD tl_Nil)
    from 1 2 3 show ?thesis by blast
  next
    case False
    have "S' = filter (\<lambda>s. s \<noteq> []) (butlast S @ [last S])" using S_eq by (simp add: S'_def)
    then have "S' = butlast S @ [last S]" using False fb by simp
    then have 1: "S = S'" using S_eq by simp
    have 2: "\<forall>s\<in>set (butlast S'). \<not> is_space (last s)"
      using S_bl 1 by (auto dest: terminal_not_space)
    have "\<forall>s\<in>set S'. s \<noteq> []" by (simp add: S'_def)
    then have 3: "\<forall>s\<in>set (tl S'). \<not> is_space (hd s)"
      using S_tl 1 by (metis list.set_sel(2) tl_Nil)
    from 1 2 3 show ?thesis by blast
  qed
qed

lemma join_split_from:
  "sjoin (split_from cur cs) = cur @ single_spaced (cur \<noteq> [] \<and> is_terminal (last cur)) cs"
proof (induction cur cs rule: split_from.induct)
  case (1 cur)
  then show ?case by simp
next
  case (2 cur c cs)
  show ?case
  proof (cases "is_space c \<and> cur \<noteq> [] \<and> is_terminal (last cur)")
    case True
    obtain x xs where r: "split_from [] (dropWhile is_space cs) = x # xs"
      using split_from_not_Nil [of "[]" "dropWhile is_space cs"] by (cases "split_from [] (dropWhile is_space cs)") auto
    have "sjoin (split_from cur (c # cs)) = cur @ [0x20] @ sjoin (split_from [] (dropWhile is_space cs))"
      using True by (simp add: r)
    also have "\<dots> = cur @ 0x20 # single_spaced False (dropWhile is_space cs)"
      using "2.IH"(1) [OF True] by simp
    finally show ?thesis using True by simp
  next
    case False
    have nt: "\<not> (is_space c \<and> is_terminal c)" by (auto dest: terminal_not_space)
    have "split_from cur (c # cs) = split_from (cur @ [c]) cs" using False by auto
    then have "sjoin (split_from cur (c # cs)) = sjoin (split_from (cur @ [c]) cs)" by simp
    also have "\<dots> = (cur @ [c]) @ single_spaced (is_terminal c) cs"
      using "2.IH"(2) [OF False] by simp
    finally show ?thesis using False by auto
  qed
qed

lemma chunks_join:
  assumes "\<exists>c\<in>set t. \<not> is_space c"
  shows "sjoin (splitTextIntoChunks t B) = trim (sjoin (split_sentences t))"
proof -
  define S where "S = split_sentences t"
  define S' where "S' = filter (\<lambda>s. s \<noteq> []) S"
  from chunks_groups [OF assms, of B] obtain G where
    G: "concat G = S'" "\<forall>g\<in>set G. g \<noteq> []"
       "splitTextIntoChunks t B = map (\<lambda>g. trim (sjoin g)) G"
    by (auto simp: S'_def S_def)
  from sentences_shape [OF S_def S'_def] have
    sh: "S = S' \<or> S = S' @ [[]]" "\<forall>s\<in>set (butlast S'). \<not> is_space (last s)"
        "\<forall>s\<in>set (tl S'). \<not> is_space (hd s)"
    by simp_all
  have ne: "\<forall>s\<in>set S'. s \<noteq> []" by (simp add: S'_def)
  have "sjoin (splitTextIntoChunks t B) = trim (sjoin S')"
    using join_groups_trim [OF ne sh(2,3) G(1,2)] G(3) by simp
  also have "\<dots> = trim (sjoin S)"
  proof -
    from sh(1) show ?thesis
    proof
      assume "S = S' @ [[]]"
      then show ?thesis by (simp add: join_snoc trim_snoc_space is_space_def)
    qed simp
  qed
  finally show ?thesis by (simp add: S_def)
qed

lemmas chunk_eval = splitTextIntoChunks_def split_sentences_def chunk_step_def trim_def
  is_space_def is_terminal_def js_def

lemma chunks_not_Nil: "splitTextIntoChunks t B \<noteq> []"
  by (simp add: splitTextIntoChunks_def Let_def split: prod.splits)

lemma chunks_bound:
  "c \<in> set (splitTextIntoChunks t B) \<Longrightarrow>
     length c \<le> B \<or> (\<exists>s\<in>set (split_sentences t). B < length s \<and> (c = trim s \<or> c = s))"
proof (cases "\<exists>x\<in>set t. \<not> is_space x")
  case True
  assume c: "c \<in> set (splitTextIntoChunks t B)"
  from chunks_groups [OF True, of B] obtain G where
    G: "concat G = filter (\<lambda>s. s \<noteq> []) (split_sentences t)"
       "\<forall>g\<in>set G. g \<noteq> [] \<and> (length (sjoin g) \<le> B \<or> length g = 1)"
       "splitTextIntoChunks t B = map (\<lambda>g. trim (sjoin g)) G" by blast
  from c G(3) obtain g where g: "g \<in> set G" "c = trim (sjoin g)" by auto
  show ?thesis
  proof (cases "length (sjoin g) \<le> B")
    case True
    with g(2) length_trim [of "sjoin g"] show ?thesis by simp
  next
    case False
    with G(2) g(1) have "length g = 1" by blast
    then obtain s where s: "g = [s]" by (cases g) auto
    with g(1) have "s \<in> set (concat G)" by force
    with G(1) have "s \<in> set (split_sentences t)" by simp
    moreover have "B < length s" "c = trim s" using False s g(2) by simp_all
    ultimately show ?thesis by blast
  qed
next
  case False
  assume c: "c \<in> set (splitTextIntoChunks t B)"
  from False have b: "\<forall>x\<in>set t. is_space x" by blast
  from chunks_blank(1) [OF b] chunks_blank(2) [OF b, of B] c show ?thesis
    by (cases "length t \<le> B") auto
qed

lemma chunks_keep_long:
  assumes "s \<in> set (split_sentences t)" "B < length s"
  shows "trim s \<in> set (splitTextIntoChunks t B) \<or> s \<in> set (splitTextIntoChunks t B)"
proof (cases "\<exists>x\<in>set t. \<not> is_space x")
  case True
  from chunks_groups [OF True, of B] obtain G where
    G: "concat G = filter (\<lambda>s. s \<noteq> []) (split_sentences t)"
       "\<forall>g\<in>set G. g \<noteq> [] \<and> (length (sjoin g) \<le> B \<or> length g = 1)"
       "splitTextIntoChunks t B = map (\<lambda>g. trim (sjoin g)) G" by blast
  from assms have "s \<in> set (concat G)" by (auto simp: G(1))
  then obtain g where g: "g \<in> set G" "s \<in> set g" by auto
  from length_le_join [OF g(2), of "[0x20]"] assms(2) have "\<not> length (sjoin g) \<le> B" by simp
  with G(2) g(1) have "length g = 1" by blast
  with g(2) have "g = [s]" by (cases g) auto
  with g(1) have "trim s \<in> set (map (\<lambda>g. trim (sjoin g)) G)" by force
  then show ?thesis by (simp add: G(3))
next
  case False
  then have b: "\<forall>x\<in>set t. is_space x" by blast
  from chunks_blank(1) [OF b] chunks_blank(2) [OF b, of B] assms(1) show ?thesis by simp
qed

lemma greedy_concat: "concat (greedy_groups B g ss) = g @ ss"
  by (induction ss arbitrary: g) auto

lemma greedy_groups_nonempty: "x \<in> set (greedy_groups B g ss) \<Longrightarrow> x \<noteq> []"
  by (induction ss arbitrary: g) (auto split: if_splits)

lemma chunk_loop_greedy:
  assumes "\<forall>s\<in>set ss. s \<noteq> []" and "\<forall>s\<in>set g. s \<noteq> []" and "g \<noteq> [] \<or> ss \<noteq> []"
  shows "\<exists>gs' g'. chunk_loop B (map (\<lambda>x. trim (sjoin x)) gs, sjoin g) ss
                     = (map (\<lambda>x. trim (sjoin x)) (gs @ gs'), sjoin g')
      \<and> greedy_groups B g ss = gs' @ [g'] \<and> g' \<noteq> [] \<and> (\<forall>s\<in>set g'. s \<noteq> [])"
  using assms
proof (induction ss arbitrary: gs g)
  case Nil
  then show ?case by (intro exI [of _ "[]"] exI [of _ g]) simp
next
  case (Cons s ss)
  from Cons.prems have s: "s \<noteq> []" and ss: "\<forall>s\<in>set ss. s \<noteq> []" by simp_all
  from Cons.prems(2) have gnil: "sjoin g = [] \<longleftrightarrow> g = []" by (rule join_Nil_iff)
  let ?f = "\<lambda>x. trim (sjoin x)"
  consider (start) "g = []"
    | (fits) "g \<noteq> []" "length (sjoin g) + 1 + length s \<le> B"
    | (close) "g \<noteq> []" "\<not> length (sjoin g) + 1 + length s \<le> B" by blast
  then show ?case
  proof cases
    case start
    then have step: "chunk_step B (map ?f gs, sjoin g) s = (map ?f gs, sjoin [s])"
      by (simp add: chunk_step_cases)
    have gr: "greedy_groups B g (s # ss) = greedy_groups B [s] ss" using start by simp
    from Cons.IH [of "[s]" gs] ss s
    obtain gs' g' where
      "chunk_loop B (map ?f gs, sjoin [s]) ss = (map ?f (gs @ gs'), sjoin g')"
      "greedy_groups B [s] ss = gs' @ [g']" "g' \<noteq> []" "\<forall>s\<in>set g'. s \<noteq> []"
      by auto
    with step gr show ?thesis
      by (intro exI [of _ gs'] exI [of _ g']) simp
  next
    case fits
    then have step: "chunk_step B (map ?f gs, sjoin g) s = (map ?f gs, sjoin (g @ [s]))"
      by (simp add: chunk_step_cases gnil join_snoc)
    have gr: "greedy_groups B g (s # ss) = greedy_groups B (g @ [s]) ss" using fits by simp
    from Cons.IH [of "g @ [s]" gs] ss Cons.prems(2) s
    obtain gs' g' where
      "chunk_loop B (map ?f gs, sjoin (g @ [s])) ss = (map ?f (gs @ gs'), sjoin g')"
      "greedy_groups B (g @ [s]) ss = gs' @ [g']" "g' \<noteq> []" "\<forall>s\<in>set g'. s \<noteq> []"
      by auto
    with step gr show ?thesis
      by (intro exI [of _ gs'] exI [of _ g']) simp
  next
    case close
    then have step: "chunk_step B (map ?f gs, sjoin g) s = (map ?f (gs @ [g]), sjoin [s])"
      by (simp add: chunk_step_cases gnil)
    have gr: "greedy_groups B g (s # ss) = g # greedy_groups B [s] ss" using close by simp
    from Cons.IH [of "[s]" "gs @ [g]"] ss s
    obtain gs' g' where
      "chunk_loop B (map ?f (gs @ [g]), sjoin [s]) ss = (map ?f ((gs @ [g]) @ gs'), sjoin g')"
      "greedy_groups B [s] ss = gs' @ [g']" "g' \<noteq> []" "\<forall>s\<in>set g'. s \<noteq> []"
      by auto
    with step gr show ?thesis
      by (intro exI [of _ "g # gs'"] exI [of _ g']) simp
  qed
qed

lemma chunks_greedy:
  assumes nonblank: "\<exists>c\<in>set text. \<not> is_space c"
  shows "splitTextIntoChunks text B
           = map (\<lambda>g. trim (sjoin g))
               (greedy_groups B [] (filter (\<lambda>s. s \<noteq> []) (split_sentences text)))"
proof -
  let ?f = "\<lambda>x. trim (sjoin x)"
  define S where "S = split_sentences text"
  have S_ne: "S \<noteq> []" by (simp add: S_def split_sentences_def split_from_not_Nil)
  have S_bl: "\<And>s. s \<in> set (butlast S) \<Longrightarrow> s \<noteq> [] \<and> is_terminal (last s)"
    unfolding S_def split_sentences_def by (rule split_from_butlast)
  have S_tl: "\<And>s. s \<in> set (tl S) \<Longrightarrow> s = [] \<or> \<not> is_space (hd s)"
    unfolding S_def split_sentences_def by (rule split_from_tl)
  have S_single: "\<And>x. S = [x] \<Longrightarrow> x = text"
    using split_from_single [of "[]" "text"] unfolding S_def split_sentences_def by simp
  have S_eq: "S = butlast S @ [last S]" using S_ne by simp
  show ?thesis
  proof (cases "last S = []")
    case False
    have all: "\<forall>s\<in>set S. s \<noteq> []"
    proof
      fix s assume "s \<in> set S"
      then have "s \<in> set (butlast S) \<or> s = last S" using S_eq
        by (metis Un_iff empty_iff empty_set set_ConsD set_append)
      with S_bl False show "s \<noteq> []" by auto
    qed
    from chunk_loop_greedy [of S "[]" B "[]"] all S_ne
    obtain gs g where
      run: "chunk_loop B ([], []) S = (map ?f gs, sjoin g)"
      and gr: "greedy_groups B [] S = gs @ [g]"
      and g: "\<forall>s\<in>set g. s \<noteq> []" "g \<noteq> []"
      by auto
    from greedy_concat [of B "[]" S] gr have cat: "concat gs @ g = S" by simp
    have gs: "\<forall>x\<in>set gs. x \<noteq> []"
      using greedy_groups_nonempty [of _ B "[]" S] gr by simp
    have bl: "butlast S = concat gs @ butlast g"
      using cat g(2) by (metis butlast_append)
    have nb: "trim (sjoin g) \<noteq> []"
    proof (cases "butlast g = []")
      case False
      then obtain s where s: "s \<in> set (butlast g)" by (cases "butlast g") auto
      then have "s \<in> set (butlast S)" by (simp add: bl)
      from S_bl [OF this] have "s \<noteq> []" "\<not> is_space (last s)"
        by (auto dest: terminal_not_space)
      moreover have "s \<in> set g" using s by (rule in_set_butlastD)
      ultimately show ?thesis by (intro terminal_last_nonblank [of s]) auto
    next
      case True
      with g(2) obtain z where z: "g = [z]" by (cases g) (auto split: if_splits)
      with g(1) have zne: "z \<noteq> []" by simp
      have "\<exists>c\<in>set z. \<not> is_space c"
      proof (cases "gs = []")
        case True
        with cat z have "S = [z]" by simp
        from S_single [OF this] nonblank show ?thesis by simp
      next
        case False
        then obtain x xs where "gs = x # xs" by (cases gs) auto
        with gs have "concat gs \<noteq> []" by auto
        with cat z have "z \<in> set (tl S)"
          by (metis append_is_Nil_conv in_set_conv_decomp list.sel(3) neq_Nil_conv tl_append2 list.set_intros(1))
        from S_tl [OF this] zne have "\<not> is_space (hd z)" by simp
        with zne show ?thesis by (cases z) auto
      qed
      with z show ?thesis by (simp add: trim_Nil_iff)
    qed
    have res: "splitTextIntoChunks text B = map ?f (gs @ [g])"
      using run nb by (intro chunks_finish [where cur = "sjoin g"]) (simp_all add: S_def)
    have "filter (\<lambda>s. s \<noteq> []) S = S" using all by simp
    with res gr show ?thesis by (simp add: S_def)
  next
    case True
    define S0 where "S0 = butlast S"
    have S0: "S = S0 @ [[]]" using S_eq True by (simp add: S0_def)
    have all: "\<forall>s\<in>set S0. s \<noteq> [] \<and> \<not> is_space (last s)"
      using S_bl by (auto simp: S0_def dest: terminal_not_space)
    have S0_ne: "S0 \<noteq> []"
    proof
      assume "S0 = []"
      with S0 have "S = [[]]" by simp
      from S_single [OF this] nonblank show False by simp
    qed
    from chunk_loop_greedy [of S0 "[]" B "[]"] all S0_ne
    obtain gs g where
      run: "chunk_loop B ([], []) S0 = (map ?f gs, sjoin g)"
      and gr: "greedy_groups B [] S0 = gs @ [g]"
      and g: "\<forall>s\<in>set g. s \<noteq> []" "g \<noteq> []"
      by auto
    from greedy_concat [of B "[]" S0] gr have cat: "concat gs @ g = S0" by simp
    from g(2) obtain s where s: "s \<in> set g" by (cases g) auto
    then have "s \<in> set S0" using cat by (metis Un_iff set_append)
    with all s have nb: "trim (sjoin g) \<noteq> []"
      by (intro terminal_last_nonblank [of s]) auto
    have jne: "sjoin g \<noteq> []" using g by (simp add: join_Nil_iff)
    have "\<exists>cur. chunk_loop B ([], []) S = (map ?f gs, cur) \<and> trim cur = trim (sjoin g)
            \<or> chunk_loop B ([], []) S = (map ?f (gs @ [g]), [])"
      unfolding S0 chunk_loop_snoc run using jne
      by (simp add: chunk_step_cases trim_snoc_space is_space_def)
    then have res: "splitTextIntoChunks text B = map ?f (gs @ [g])"
    proof (elim exE disjE conjE)
      fix cur assume "chunk_loop B ([], []) S = (map ?f gs, cur)" "trim cur = trim (sjoin g)"
      with nb show ?thesis by (intro chunks_finish [where cur = cur]) (simp_all add: S_def)
    next
      assume "chunk_loop B ([], []) S = (map ?f (gs @ [g]), [])"
      then show ?thesis by (simp add: splitTextIntoChunks_def S_def trim_def)
    qed
    have "filter (\<lambda>s. s \<noteq> []) S = S0" using all by (simp add: S0)
    with res gr show ?thesis by (simp add: S_def)
  qed
qed

text \<open>
  Claim C6. The chunks are the greedy grouping of the sentences: for a text with a code
  unit that is not white space, the result is, chunk by chunk, the trimmed space-join of
  the runs that \<open>greedy_groups\<close> makes of the non-empty sentences, where a sentence joins the
  current run exactly when \<open>length current + 1 + length sentence \<le> B\<close>, and otherwise closes
  it and starts the next; the runs, put end to end, are all the sentences in order. (A text
  of white space only gives the text itself.) Hence every chunk of the result has at most
  \<open>B\<close> code units, unless it is one sentence longer than \<open>B\<close> (with the white space around
  it trimmed, or the untouched text when the text is nothing but white space); and every
  sentence longer than \<open>B\<close> is a chunk of the result on its own, neither cut nor dropped.
\<close>
theorem chunker_greedy_bounded:
  "((\<exists>c\<in>set t. \<not> is_space c) \<longrightarrow>
       splitTextIntoChunks t B
         = map (\<lambda>g. trim (sjoin g))
             (greedy_groups B [] (filter (\<lambda>s. s \<noteq> []) (split_sentences t))))
   \<and> ((\<forall>c\<in>set t. is_space c) \<longrightarrow> splitTextIntoChunks t B = [t])
   \<and> concat (greedy_groups B [] ss) = ss
   \<and> (\<forall>c\<in>set (splitTextIntoChunks t B).
         length c \<le> B \<or> (\<exists>s\<in>set (split_sentences t). B < length s \<and> (c = trim s \<or> c = s)))
   \<and> (\<forall>s\<in>set (split_sentences t). B < length s \<longrightarrow>
         trim s \<in> set (splitTextIntoChunks t B) \<or> s \<in> set (splitTextIntoChunks t B))"
  using chunks_bound [of _ t B] chunks_keep_long [of _ t B] chunks_greedy [of t B]
    chunks_blank(2) [of t B] greedy_concat [of B "[]" ss]
  by simp

theorem chunker_greedy_bounded_witness:
  "(\<exists>c\<in>set (js ''Abcdefg! Hi. Yo? Bye.''). \<not> is_space c)
   \<and> split_sentences (js ''Abcdefg! Hi. Yo? Bye.'')
       = [js ''Abcdefg!'', js ''Hi.'', js ''Yo?'', js ''Bye.'']
   \<and> greedy_groups 7 [] [js ''Abcdefg!'', js ''Hi.'', js ''Yo?'', js ''Bye.'']
       = [[js ''Abcdefg!''], [js ''Hi.'', js ''Yo?''], [js ''Bye.'']]
   \<and> splitTextIntoChunks (js ''Abcdefg! Hi. Yo? Bye.'') 7
       = [js ''Abcdefg!'', js ''Hi. Yo?'', js ''Bye.'']
   \<and> 7 < length (js ''Abcdefg!'') \<and> trim (js ''Abcdefg!'') = js ''Abcdefg!''
   \<and> \<not> (\<exists>c\<in>set (js ''  ''). \<not> is_space c) \<and> splitTextIntoChunks (js ''  '') 7 = [js ''  '']"
  using chunker_greedy_bounded [of "js ''Abcdefg! Hi. Yo? Bye.''" 7]
    chunker_greedy_bounded [of "js ''  ''" 7]
  by (simp add: chunk_eval)

text \<open>
  Claim C7, as stated, fails: the separator between two sentences is any run of white
  space, and the chunks are joined by one space, so a text whose two sentences are
  separated by two spaces comes back with one space between them.
\<close>
theorem chunks_rejoin_counterexample:
  "join_with [0x20] (splitTextIntoChunks (js ''a.  b.'') 300) \<noteq> js ''a.  b.''"
  by (simp add: chunk_eval)

text \<open>
  Claim C7, amended. For a text with a code unit that is not white space, the chunks joined
  by single spaces are the sentences joined by single spaces, trimmed, that is the text
  with every run of white space after terminal punctuation replaced by one space and the
  white space around it removed; and every chunk is
  the trimmed space-join of a run of consecutive whole sentences, the runs taken in order
  covering all non-empty sentences: no sentence is split across two chunks, whatever its
  length.
\<close>
theorem chunks_rejoin_sentences:
  assumes "\<exists>c\<in>set t. \<not> is_space c"
  shows "join_with [0x20] (splitTextIntoChunks t B) = trim (join_with [0x20] (split_sentences t))
       \<and> join_with [0x20] (split_sentences t) = single_spaced False t
       \<and> (\<exists>G. concat G = filter (\<lambda>s. s \<noteq> []) (split_sentences t)
              \<and> (\<forall>g\<in>set G. g \<noteq> [])
              \<and> splitTextIntoChunks t B = map (\<lambda>g. trim (join_with [0x20] g)) G)"
  using chunks_join [OF assms, of B] chunks_groups [OF assms, of B]
    join_split_from [of "[]" t]
  by (simp add: split_sentences_def) blast

theorem chunks_rejoin_sentences_witness:
  "(\<exists>c\<in>set (js ''a.  b. '').  \<not> is_space c)
   \<and> join_with [0x20] (splitTextIntoChunks (js ''a.  b. '') 4) = js ''a. b.''
   \<and> trim (join_with [0x20] (split_sentences (js ''a.  b. ''))) = js ''a. b.''
   \<and> single_spaced False (js ''a.  b. '') = js ''a. b. ''"
proof -
  have h: "\<exists>c\<in>set (js ''a.  b. '').  \<not> is_space c" by (simp add: chunk_eval)
  show ?thesis using h chunks_rejoin_sentences [OF h, of 4] by (simp add: chunk_eval)
qed

text \<open>
  Claim C8, as stated, fails: the single chunk is the trimmed text, so the input made of a
  space and the letter \<open>a\<close> gives the chunk \<open>a\<close>.
\<close>
theorem chunks_whole_input_counterexample:
  "splitTextIntoChunks (js '' a'') 300 \<noteq> [js '' a'']"
  by (simp add: chunk_eval)

text \<open>
  Claim C8, amended. A text without terminal punctuation gives exactly one chunk: the text
  with the white space around it trimmed, or the text itself when it is nothing but white
  space. The result is never empty, and its chunks follow the order of the sentences: they
  are the trimmed space-joins of consecutive runs of the non-empty sentences.
\<close>
theorem chunks_no_punctuation:
  "((\<forall>c\<in>set t. \<not> is_terminal c) \<longrightarrow>
       splitTextIntoChunks t B = [if trim t = [] then t else trim t])
   \<and> splitTextIntoChunks t B \<noteq> []
   \<and> ((\<exists>c\<in>set t. \<not> is_space c) \<longrightarrow>
        (\<exists>G. concat G = filter (\<lambda>s. s \<noteq> []) (split_sentences t)
            \<and> splitTextIntoChunks t B = map (\<lambda>g. trim (join_with [0x20] g)) G))"
proof (intro conjI impI)
  assume "\<forall>c\<in>set t. \<not> is_terminal c"
  then have "\<forall>c\<in>set [] \<union> set t. \<not> is_terminal c" by simp
  from split_from_no_terminal [OF this] have "split_sentences t = [t]"
    by (simp add: split_sentences_def)
  then show "splitTextIntoChunks t B = [if trim t = [] then t else trim t]"
    by (simp add: splitTextIntoChunks_def chunk_step_cases)
next
  show "splitTextIntoChunks t B \<noteq> []" by (rule chunks_not_Nil)
next
  assume "\<exists>c\<in>set t. \<not> is_space c"
  from chunks_groups [OF this, of B]
  show "\<exists>G. concat G = filter (\<lambda>s. s \<noteq> []) (split_sentences t)
            \<and> splitTextIntoChunks t B = map (\<lambda>g. trim (join_with [0x20] g)) G" by blast
qed

theorem chunks_no_punctuation_witness:
  "\<not> (\<exists>c\<in>set (js ''hello world ''). is_terminal c)
   \<and> (\<exists>c\<in>set (js ''hello world ''). \<not> is_space c)
   \<and> splitTextIntoChunks (js ''hello world '') 300 = [js ''hello world'']"
  using chunks_no_punctuation [of "js ''hello world ''" 300]
  by (simp add: chunk_eval)


section \<open>Properties of the audio container splicer\<close>

lemma unat_byte: "unat (of_nat n :: byte) = n mod 256"
  by (simp add: unat_of_nat)

lemma split256: "(v::nat) mod 256 + 256 * (v div 256) = v"
  by simp

lemma le16_roundtrip:
  assumes "v \<le> 0xFFFF"
  shows "v mod 256 + 256 * (v div 256 mod 256) = (v::nat)"
proof -
  from assms have "v < 256 * 256" by simp
  then have "v div 256 < 256" by (simp add: less_mult_imp_div_less)
  then show ?thesis by simp
qed

lemma le32_roundtrip:
  assumes "v \<le> 0xFFFFFFFF"
  shows "v mod 256 + 256 * (v div 256 mod 256) + 65536 * (v div 65536 mod 256)
     + 16777216 * (v div 16777216 mod 256) = (v::nat)"
proof -
  define a where "a = v div 256"
  define b where "b = a div 256"
  define c where "c = b div 256"
  have b: "v div 65536 = b" unfolding a_def b_def by (simp add: div_mult2_eq)
  have c: "v div 16777216 = c" unfolding a_def b_def c_def by (simp add: div_mult2_eq)
  from assms have "v < 16777216 * 256" by simp
  then have "a < 16777216" unfolding a_def by (simp add: less_mult_imp_div_less)
  then have "a < 65536 * 256" by simp
  then have "b < 65536" unfolding b_def by (simp add: less_mult_imp_div_less)
  then have "b < 256 * 256" by simp
  then have "c < 256" unfolding c_def by (simp add: less_mult_imp_div_less)
  then have c': "c mod 256 = c" by simp
  have 1: "v = v mod 256 + 256 * a" unfolding a_def by simp
  have 2: "a = a mod 256 + 256 * b" unfolding b_def by simp
  have 3: "b = b mod 256 + 256 * c" unfolding c_def by simp
  have "v mod 256 + 256 * (a mod 256) + 65536 * (b mod 256) + 16777216 * c
        = v mod 256 + 256 * (a mod 256 + 256 * (b mod 256 + 256 * c))" by simp
  also have "\<dots> = v" using 1 2 3 by simp
  finally show ?thesis using b c c' by (simp add: a_def)
qed

lemma byte_less: "unat (a::byte) < 256"
  using unsigned_less [of a, where 'a = nat] by simp

lemma read16_bound: "readUInt16LE buf off = Inr v \<Longrightarrow> v \<le> 0xFFFF"
proof -
  have "unat (a::byte) + 256 * unat (b::byte) \<le> 0xFFFF" for a b
    using byte_less [of a] byte_less [of b] by simp
  then show "readUInt16LE buf off = Inr v \<Longrightarrow> v \<le> 0xFFFF"
    by (auto simp: readUInt16LE_def split: if_splits)
qed

lemma read32_bound: "readUInt32LE buf off = Inr v \<Longrightarrow> v \<le> 0xFFFFFFFF"
proof -
  have "unat (a::byte) + 256 * unat (b::byte) + 65536 * unat (c::byte) + 16777216 * unat (d::byte)
          \<le> 0xFFFFFFFF" for a b c d
    using byte_less [of a] byte_less [of b] byte_less [of c] byte_less [of d] by simp
  then show "readUInt32LE buf off = Inr v \<Longrightarrow> v \<le> 0xFFFFFFFF"
    by (auto simp: readUInt32LE_def split: if_splits)
qed

lemma read_fmt_fit:
  assumes "read_fmt buf cs info = Inr info'"
  shows "fields_fit info'"
proof -
  from assms obtain f c r b where
    r: "readUInt16LE buf (cs + 0) = Inr f" "readUInt16LE buf (cs + 2) = Inr c"
       "readUInt32LE buf (cs + 4) = Inr r" "readUInt16LE buf (cs + 14) = Inr b"
    and i: "info' = info\<lparr>format := f, channels := c, sampleRate := r, bitsPerSample := b\<rparr>"
    unfolding read_fmt_def by (simp split: sum.splits)
  from r have "f \<le> 0xFFFF" "c \<le> 0xFFFF" "r \<le> 0xFFFFFFFF" "b \<le> 0xFFFF"
    by (blast dest: read16_bound read32_bound)+
  with i show ?thesis unfolding fields_fit_def by simp
qed

lemma parse_chunks_fit:
  "parse_chunks buf pos ff df info = Inr (ff', df', info') \<Longrightarrow> fields_fit info \<Longrightarrow> fields_fit info'"
proof (induction buf pos ff df info rule: parse_chunks.induct)
  case (1 buf pos ff df info)
  show ?case
  proof (cases "pos + 8 \<le> length buf")
    case False
    with "1.prems" show ?thesis by (simp add: parse_chunks.simps [of buf pos])
  next
    case True
    with "1.prems"(1) obtain sz where sz: "readUInt32LE buf (pos + 4) = Inr sz"
      by (cases "readUInt32LE buf (pos + 4)") (simp_all add: parse_chunks.simps [of buf pos])
    show ?thesis
    proof (cases "toAscii buf pos (pos + 4) = ascii_bytes ''fmt ''")
      case fmt: True
      with True sz "1.prems"(1) obtain info2 where
        i2: "read_fmt buf (pos + 8) info = Inr info2"
        and rec: "parse_chunks buf (pos + 8 + sz + sz mod 2) True df info2 = Inr (ff', df', info')"
        by (cases "read_fmt buf (pos + 8) info") (simp_all add: parse_chunks.simps [of buf pos])
      from "1.IH"(1) [OF True sz fmt i2 rec read_fmt_fit [OF i2]] show ?thesis .
    next
      case nofmt: False
      show ?thesis
      proof (cases "toAscii buf pos (pos + 4) = ascii_bytes ''data''")
        case data: True
        with True sz nofmt "1.prems"(1) have
          rec: "parse_chunks buf (pos + 8 + sz + sz mod 2) ff True
                  (info\<lparr>dataOffset := pos + 8, dataLength := sz\<rparr>) = Inr (ff', df', info')"
          by (simp add: parse_chunks.simps [of buf pos])
        have "fields_fit (info\<lparr>dataOffset := pos + 8, dataLength := sz\<rparr>)"
          using "1.prems"(2) by (simp add: fields_fit_def)
        from "1.IH"(2) [OF True sz nofmt data rec this] show ?thesis .
      next
        case other: False
        with True sz nofmt "1.prems"(1) have
          rec: "parse_chunks buf (pos + 8 + sz + sz mod 2) ff df info = Inr (ff', df', info')"
          by (simp add: parse_chunks.simps [of buf pos])
        from "1.IH"(3) [OF True sz nofmt other rec "1.prems"(2)] show ?thesis .
      qed
    qed
  qed
qed

lemma parseWav_Inr:
  assumes "parseWav buf = Inr info"
  shows "\<exists>ff df. parse_chunks buf 12 False False
                  \<lparr>format = 1, channels = 1, sampleRate = 16000, bitsPerSample = 16,
                   dataOffset = 0, dataLength = 0, buffer = buf\<rparr> = Inr (ff, df, info)"
proof (cases "parse_chunks buf 12 False False
                  \<lparr>format = 1, channels = 1, sampleRate = 16000, bitsPerSample = 16,
                   dataOffset = 0, dataLength = 0, buffer = buf\<rparr>")
  case (Inl e)
  with assms show ?thesis unfolding parseWav_def by (simp split: if_splits)
next
  case (Inr r)
  obtain ff df i where r: "r = (ff, df, i)" by (cases r)
  with Inr assms have "i = info" unfolding parseWav_def by (simp split: if_splits)
  with Inr r show ?thesis by simp
qed

lemma parseWav_fit: "parseWav buf = Inr info \<Longrightarrow> fields_fit info"
proof -
  assume "parseWav buf = Inr info"
  from parseWav_Inr [OF this] obtain ff df where "parse_chunks buf 12 False False
                  \<lparr>format = 1, channels = 1, sampleRate = 16000, bitsPerSample = 16,
                   dataOffset = 0, dataLength = 0, buffer = buf\<rparr> = Inr (ff, df, info)"
    by blast
  then show ?thesis by (rule parse_chunks_fit) (simp add: fields_fit_def)
qed

lemma read16_le16:
  assumes "v \<le> 0xFFFF" "off + 2 \<le> length buf" "take 2 (drop off buf) = le16 v"
  shows "readUInt16LE buf off = Inr v"
proof -
  from assms(2,3) have "buf ! off = of_nat v" "buf ! (off + 1) = of_nat (v div 256)"
    by (simp_all add: le16_def list_eq_iff_nth_eq numeral_2_eq_2 less_Suc_eq all_conj_distrib)
  then have "unat (buf ! off) + 256 * unat (buf ! (off + 1)) = v"
    by (simp only: unat_byte le16_roundtrip [OF assms(1)])
  with assms(2) show ?thesis
    by (simp only: readUInt16LE_def if_True)
qed

lemma read32_le32:
  assumes "v \<le> 0xFFFFFFFF" "off + 4 \<le> length buf" "take 4 (drop off buf) = le32 v"
  shows "readUInt32LE buf off = Inr v"
proof -
  have "\<forall>i<4. take 4 (drop off buf) ! i = buf ! (off + i)" using assms(2) by simp
  then have "take 4 (drop off buf) ! 0 = buf ! (off + 0)" "take 4 (drop off buf) ! 1 = buf ! (off + 1)"
     "take 4 (drop off buf) ! 2 = buf ! (off + 2)" "take 4 (drop off buf) ! 3 = buf ! (off + 3)"
    by simp_all
  then have "buf ! off = of_nat v" "buf ! (off + 1) = of_nat (v div 256)"
    "buf ! (off + 2) = of_nat (v div 65536)" "buf ! (off + 3) = of_nat (v div 16777216)"
    by (simp_all add: assms(3) le32_def)
  then have "unat (buf ! off) + 256 * unat (buf ! (off + 1))
                + 65536 * unat (buf ! (off + 2)) + 16777216 * unat (buf ! (off + 3)) = v"
    by (simp only: unat_byte le32_roundtrip [OF assms(1)])
  with assms(2) show ?thesis
    by (simp only: readUInt32LE_def if_True)
qed

lemma length_canon: "length (canon R F C S BR BA B T) = 44"
  by (simp add: canon_def le16_def le32_def ascii_bytes_def)

lemma div8_le: "(a::nat) \<le> 8 * k \<Longrightarrow> a div 8 \<le> k"
  using div_le_mono [of a "8 * k" 8] by simp

lemma wav_header_canon:
  assumes "fields_fit first"
    and "sampleRate first * channels first * bitsPerSample first \<le> 8 * 0xFFFFFFFF"
    and "channels first * bitsPerSample first \<le> 8 * 0xFFFF"
    and "36 + tot \<le> 0xFFFFFFFF"
  shows "wav_header first tot =
     Inr (canon (36 + tot) (format first) (channels first) (sampleRate first)
            (sampleRate first * channels first * bitsPerSample first div 8)
            (channels first * bitsPerSample first div 8) (bitsPerSample first) tot)"
proof -
  have "tot \<le> 0xFFFFFFFF" using assms(4) by simp
  moreover have "4 + (8 + 16) + (8 + tot) = 36 + tot" by simp
  moreover have "sampleRate first * channels first * bitsPerSample first div 8 \<le> 0xFFFFFFFF"
    using assms(2) by (rule div8_le)
  moreover have "channels first * bitsPerSample first div 8 \<le> 0xFFFF"
    using assms(3) by (rule div8_le)
  ultimately show ?thesis
    using assms unfolding wav_header_def fields_fit_def
    by (simp add: then_write_def writeUInt32LE_def writeUInt16LE_def writeUInt32LE_8_def
        writeUInt16LE_8_def canon_def le16_def le32_def)
qed


lemmas canon_eval = canon_def le16_def le32_def ascii_bytes_def toAscii_def

lemma parseWav_canon:
  assumes "F \<le> 0xFFFF" "C \<le> 0xFFFF" "S \<le> 0xFFFFFFFF" "B \<le> 0xFFFF" "T \<le> 0xFFFFFFFF"
    and "length P \<le> T"
  shows "parseWav (canon R F C S BR BA B T @ P) =
           Inr \<lparr>format = F, channels = C, sampleRate = S, bitsPerSample = B,
                dataOffset = 44, dataLength = T, buffer = canon R F C S BR BA B T @ P\<rparr>"
proof -
  define buf where "buf = canon R F C S BR BA B T @ P"
  have len: "length buf = 44 + length P" by (simp add: buf_def length_canon)
  have riff: "toAscii buf 0 4 = ascii_bytes ''RIFF''" "toAscii buf 8 12 = ascii_bytes ''WAVE''"
    by (simp_all add: buf_def canon_eval)
  have id1: "toAscii buf 12 (12 + 4) = ascii_bytes ''fmt ''"
    by (simp add: buf_def canon_eval)
  have id2: "toAscii buf 36 (36 + 4) = ascii_bytes ''data''"
    "toAscii buf 36 (36 + 4) \<noteq> ascii_bytes ''fmt ''"
    by (simp_all add: buf_def canon_eval)
  have sz1: "readUInt32LE buf (12 + 4) = Inr 16"
    by (rule read32_le32) (simp_all add: len, simp add: buf_def canon_eval)
  have sz2: "readUInt32LE buf (36 + 4) = Inr T"
    by (rule read32_le32) (simp_all add: len assms, simp add: buf_def canon_eval)
  have f: "readUInt16LE buf (12 + 8 + 0) = Inr F"
    by (rule read16_le16) (simp_all add: len assms, simp add: buf_def canon_eval)
  have c: "readUInt16LE buf (12 + 8 + 2) = Inr C"
    by (rule read16_le16) (simp_all add: len assms, simp add: buf_def canon_eval)
  have s: "readUInt32LE buf (12 + 8 + 4) = Inr S"
    by (rule read32_le32) (simp_all add: len assms, simp add: buf_def canon_eval)
  have b: "readUInt16LE buf (12 + 8 + 14) = Inr B"
    by (rule read16_le16) (simp_all add: len assms, simp add: buf_def canon_eval)
  let ?i0 = "\<lparr>format = 1, channels = 1, sampleRate = 16000, bitsPerSample = 16,
               dataOffset = 0, dataLength = 0, buffer = buf\<rparr>"
  let ?i1 = "\<lparr>format = F, channels = C, sampleRate = S, bitsPerSample = B,
               dataOffset = 0, dataLength = 0, buffer = buf\<rparr>"
  let ?i2 = "\<lparr>format = F, channels = C, sampleRate = S, bitsPerSample = B,
               dataOffset = 44, dataLength = T, buffer = buf\<rparr>"
  have fmt: "read_fmt buf (12 + 8) ?i0 = Inr ?i1"
    by (simp only: read_fmt_def f c s b sum.case) simp
  have stop: "parse_chunks buf (44 + T + T mod 2) True True ?i2 = Inr (True, True, ?i2)"
    using assms(6) by (subst parse_chunks.simps) (simp add: len)
  have ne: "ascii_bytes ''data'' \<noteq> ascii_bytes ''fmt ''" by (simp add: ascii_bytes_def)
  have step2: "parse_chunks buf 36 True False ?i1 = Inr (True, True, ?i2)"
    by (subst parse_chunks.simps) (simp only: sz2 id2 sum.case if_True if_False, simp add: len stop ne)
  have "12 + 8 + 16 + 16 mod 2 = (36::nat)" by simp
  with step2 have step2': "parse_chunks buf (12 + 8 + 16 + 16 mod 2) True False ?i1 = Inr (True, True, ?i2)"
    by (simp only:)
  have step1: "parse_chunks buf 12 False False ?i0 = Inr (True, True, ?i2)"
    by (subst parse_chunks.simps) (simp only: len sz1 id1 fmt step2' sum.case if_True, simp)
  show ?thesis
    unfolding buf_def [symmetric] parseWav_def by (simp only: riff step1) simp
qed

lemma length_pcm_part:
  "dataOffset i + dataLength i \<le> length (buffer i) \<Longrightarrow> length (pcm_part i) = dataLength i"
  by (simp add: pcm_part_def)

lemma length_concat_pcm:
  "\<forall>i\<in>set infos. dataOffset i + dataLength i \<le> length (buffer i) \<Longrightarrow>
   length (concat (map pcm_part infos)) = sum_list (map dataLength infos)"
  by (induction infos) (simp_all add: length_pcm_part)

lemma read32_canon_riff:
  assumes "R \<le> 0xFFFFFFFF"
  shows "readUInt32LE (canon R F C S BR BA B T @ P) 4 = Inr R"
  using assms by (intro read32_le32) (simp_all add: length_canon, simp add: canon_eval)

lemma read_fmt_buffer:
  assumes "read_fmt buf cs info = Inr info'"
  shows "buffer info' = buffer info"
  using assms unfolding read_fmt_def by (auto split: sum.splits)

lemma parse_chunks_buffer:
  "parse_chunks buf pos ff df info = Inr (ff', df', info') \<Longrightarrow> buffer info' = buffer info"
proof (induction buf pos ff df info rule: parse_chunks.induct)
  case (1 buf pos ff df info)
  show ?case
  proof (cases "pos + 8 \<le> length buf")
    case False
    with "1.prems" show ?thesis by (simp add: parse_chunks.simps [of buf pos])
  next
    case True
    with "1.prems"(1) obtain sz where sz: "readUInt32LE buf (pos + 4) = Inr sz"
      by (cases "readUInt32LE buf (pos + 4)") (simp_all add: parse_chunks.simps [of buf pos])
    show ?thesis
    proof (cases "toAscii buf pos (pos + 4) = ascii_bytes ''fmt ''")
      case fmt: True
      with True sz "1.prems"(1) obtain info2 where
        i2: "read_fmt buf (pos + 8) info = Inr info2"
        and rec: "parse_chunks buf (pos + 8 + sz + sz mod 2) True df info2 = Inr (ff', df', info')"
        by (cases "read_fmt buf (pos + 8) info") (simp_all add: parse_chunks.simps [of buf pos])
      from "1.IH"(1) [OF True sz fmt i2 rec] read_fmt_buffer [OF i2] show ?thesis by simp
    next
      case nofmt: False
      show ?thesis
      proof (cases "toAscii buf pos (pos + 4) = ascii_bytes ''data''")
        case data: True
        with True sz nofmt "1.prems"(1) have
          rec: "parse_chunks buf (pos + 8 + sz + sz mod 2) ff True
                  (info\<lparr>dataOffset := pos + 8, dataLength := sz\<rparr>) = Inr (ff', df', info')"
          by (simp add: parse_chunks.simps [of buf pos])
        from "1.IH"(2) [OF True sz nofmt data rec] show ?thesis by simp
      next
        case other: False
        with True sz nofmt "1.prems"(1) have
          rec: "parse_chunks buf (pos + 8 + sz + sz mod 2) ff df info = Inr (ff', df', info')"
          by (simp add: parse_chunks.simps [of buf pos])
        from "1.IH"(3) [OF True sz nofmt other rec] show ?thesis .
      qed
    qed
  qed
qed

lemma parseWav_buffer: "parseWav buf = Inr info \<Longrightarrow> buffer info = buf"
proof -
  assume "parseWav buf = Inr info"
  from parseWav_Inr [OF this] obtain ff df where "parse_chunks buf 12 False False
                  \<lparr>format = 1, channels = 1, sampleRate = 16000, bitsPerSample = 16,
                   dataOffset = 0, dataLength = 0, buffer = buf\<rparr> = Inr (ff, df, info)"
    by blast
  from parse_chunks_buffer [OF this] show ?thesis by simp
qed

lemma read_infos_files:
  "read_infos fs ins = Inr infos \<Longrightarrow>
     map fs ins = map (\<lambda>i. Some (buffer i)) infos \<and> (\<forall>i\<in>set infos. parseWav (buffer i) = Inr i)"
proof (induction ins arbitrary: infos)
  case Nil
  then show ?case by simp
next
  case (Cons f rest)
  from Cons.prems obtain buf info infos' where
    f: "fs f = Some buf" and p: "parseWav buf = Inr info"
    and r: "read_infos fs rest = Inr infos'" and e: "infos = info # infos'"
    by (auto split: option.splits sum.splits)
  from parseWav_buffer [OF p] have b: "buffer info = buf" .
  with Cons.IH [OF r] f p e show ?case by simp
qed

text \<open>
  Claim C4, as stated, fails for lists of fragments that the claim does not exclude. A
  fragment whose data chunk declares 12 bytes while its file holds 5 of them is spliced
  into a file whose header declares 12 payload bytes and the RIFF size 48, with 5 payload
  bytes after it. A fragment with 65535 channels of 16 bits has a block alignment beyond
  its field of 16 bits: the write of the header throws and nothing is written. With no
  fragment at all the read of the first descriptor throws.
\<close>
theorem combineWavs_truncated_counterexample:
  "combineWavs [(0::nat) \<mapsto> canon 48 1 1 22050 44100 2 16 12 @ [1, 2, 3, 4, 5]] [0] 1
     = (None, [0 \<mapsto> canon 48 1 1 22050 44100 2 16 12 @ [1, 2, 3, 4, 5],
               1 \<mapsto> canon 48 1 1 22050 44100 2 16 12 @ [1, 2, 3, 4, 5]])
   \<and> parseWav (canon 48 1 1 22050 44100 2 16 12 @ [1, 2, 3, 4, 5])
       = Inr \<lparr>format = 1, channels = 1, sampleRate = 22050, bitsPerSample = 16, dataOffset = 44,
              dataLength = 12, buffer = canon 48 1 1 22050 44100 2 16 12 @ [1, 2, 3, 4, 5]\<rparr>
   \<and> readUInt32LE (canon 48 1 1 22050 44100 2 16 12 @ [1, 2, 3, 4, 5]) 4 = Inr 48
   \<and> drop 44 (canon 48 1 1 22050 44100 2 16 12 @ [1, 2, 3, 4, 5]) = [1, 2, 3, 4, 5]
   \<and> 4 + (8 + 16) + (8 + length [1, 2, 3, 4, 5 :: byte]) \<noteq> (48 :: nat)
   \<and> combineWavs [(0::nat) \<mapsto> canon 36 1 65535 22050 0 0 16 0] [0] 1
       = (Some OutOfRange, [0 \<mapsto> canon 36 1 65535 22050 0 0 16 0])
   \<and> combineWavs (Map.empty :: nat \<rightharpoonup> buffer) [] 1 = (Some NoFirstInfo, Map.empty)"
proof -
  let ?A = "canon 48 1 1 22050 44100 2 16 12 @ [1, 2, 3, 4, 5]"
  let ?iA = "\<lparr>format = 1, channels = 1, sampleRate = 22050, bitsPerSample = 16,
              dataOffset = 44, dataLength = 12, buffer = ?A\<rparr>"
  let ?B = "canon 36 1 65535 22050 0 0 16 0"
  let ?iB = "\<lparr>format = 1, channels = 65535, sampleRate = 22050, bitsPerSample = 16,
              dataOffset = 44, dataLength = 0, buffer = ?B\<rparr>"
  have pA: "parseWav ?A = Inr ?iA" by (rule parseWav_canon) simp_all
  have "parseWav (?B @ []) = Inr \<lparr>format = 1, channels = 65535, sampleRate = 22050,
          bitsPerSample = 16, dataOffset = 44, dataLength = 0, buffer = ?B @ []\<rparr>"
    by (rule parseWav_canon) simp_all
  then have pB: "parseWav ?B = Inr ?iB" by simp
  have hA: "wav_header ?iA 12 = Inr (canon (36 + 12) (format ?iA) (channels ?iA) (sampleRate ?iA)
            (sampleRate ?iA * channels ?iA * bitsPerSample ?iA div 8)
            (channels ?iA * bitsPerSample ?iA div 8) (bitsPerSample ?iA) 12)"
    by (rule wav_header_canon) (simp_all add: fields_fit_def)
  then have hA': "wav_header ?iA 12 = Inr (canon 48 1 1 22050 44100 2 16 12)" by simp
  have pcm: "pcm_part ?iA = [1, 2, 3, 4, 5]" by (simp add: pcm_part_def length_canon)
  have rA: "read_infos [(0::nat) \<mapsto> ?A] [0] = Inr [?iA]" by (simp add: pA del: One_nat_def)
  have cA: "combineWavs [(0::nat) \<mapsto> ?A] [0] 1 = (None, [0 \<mapsto> ?A, 1 \<mapsto> ?A])"
    unfolding combineWavs_def rA by (simp add: hA' pcm del: One_nat_def)
  have hB: "wav_header ?iB 0 = Inl OutOfRange"
    by (simp add: wav_header_def then_write_def writeUInt32LE_def writeUInt16LE_def
        writeUInt32LE_8_def writeUInt16LE_8_def)
  have rB: "read_infos [(0::nat) \<mapsto> ?B] [0] = Inr [?iB]" by (simp add: pB del: One_nat_def)
  have cB: "combineWavs [(0::nat) \<mapsto> ?B] [0] 1 = (Some OutOfRange, [0 \<mapsto> ?B])"
    unfolding combineWavs_def rB by (simp add: hB del: One_nat_def)
  have r4: "readUInt32LE ?A 4 = Inr 48" by (rule read32_canon_riff) simp
  have d: "drop 44 ?A = [1, 2, 3, 4, 5]" by (simp add: length_canon)
  have cE: "combineWavs (Map.empty :: nat \<rightharpoonup> buffer) [] 1 = (Some NoFirstInfo, Map.empty)"
    by (simp add: combineWavs_def)
  show ?thesis using cA pA r4 d cB cE by (intro conjI) simp_all
qed

text \<open>
  Claim C4, amended. The inputs are WAV fragments, at least one: each is read and parsed,
  its data chunk lies within its file (so that its payload has the declared length
  \<open>dataLength\<close>), all have the format descriptor of the first, and the values of the header
  fit their fields (the total stays below 4 GiB, and block alignment and byte rate fit 16
  and 32 bits, as in any file whose own header states them). Then \<open>combineWavs\<close> writes one
  file. Its first 44 bytes are the header with the RIFF size \<open>4 + (8 + 16) + (8 + total)\<close>,
  the format descriptor of the first fragment and the total as the size of the data chunk.
  The bytes after the header are, for each input file in order, the bytes of that file
  from the start of its data chunk, as many as the chunk declares; their number is the sum
  of the payload lengths. \<open>parseWav\<close> on the written file gives the format descriptor of the
  first fragment, that total as the payload length, and those bytes as the payload.
\<close>
theorem combineWavs_splices:
  assumes reads: "read_infos fs inputFiles = Inr (first # others)"
    and same: "list_all (same_format first) others"
    and whole: "\<forall>i\<in>set (first # others). dataOffset i + dataLength i \<le> length (buffer i)"
    and fits: "36 + sum_list (map dataLength (first # others)) \<le> 0xFFFFFFFF"
      "sampleRate first * channels first * bitsPerSample first \<le> 8 * 0xFFFFFFFF"
      "channels first * bitsPerSample first \<le> 8 * 0xFFFF"
  shows "\<exists>out. combineWavs fs inputFiles outputFile = (None, fs(outputFile \<mapsto> out))
      \<and> map fs inputFiles = map (\<lambda>i. Some (buffer i)) (first # others)
      \<and> (\<forall>i\<in>set (first # others). parseWav (buffer i) = Inr i)
      \<and> take 44 out
          = canon (4 + (8 + 16) + (8 + sum_list (map dataLength (first # others))))
              (format first) (channels first) (sampleRate first)
              (sampleRate first * channels first * bitsPerSample first div 8)
              (channels first * bitsPerSample first div 8) (bitsPerSample first)
              (sum_list (map dataLength (first # others)))
      \<and> drop 44 out
          = concat (map (\<lambda>i. take (dataLength i) (drop (dataOffset i) (buffer i))) (first # others))
      \<and> length (drop 44 out) = sum_list (map dataLength (first # others))
      \<and> readUInt32LE out 4 = Inr (4 + (8 + 16) + (8 + sum_list (map dataLength (first # others))))
      \<and> (\<exists>info. parseWav out = Inr info
            \<and> format info = format first \<and> channels info = channels first
            \<and> sampleRate info = sampleRate first \<and> bitsPerSample info = bitsPerSample first
            \<and> dataOffset info = 44
            \<and> dataLength info = sum_list (map dataLength (first # others))
            \<and> take (dataLength info) (drop (dataOffset info) out)
                = concat (map (\<lambda>i. take (dataLength i) (drop (dataOffset i) (buffer i)))
                            (first # others)))"
proof -
  define tot where "tot = sum_list (map dataLength (first # others))"
  define P where "P = concat (map pcm_part (first # others))"
  define H where "H = canon (36 + tot) (format first) (channels first) (sampleRate first)
            (sampleRate first * channels first * bitsPerSample first div 8)
            (channels first * bitsPerSample first div 8) (bitsPerSample first) tot"
  have Pbytes: "P = concat (map (\<lambda>i. take (dataLength i) (drop (dataOffset i) (buffer i)))
                            (first # others))"
    unfolding P_def by (simp add: pcm_part_def [abs_def])
  from read_infos_files [OF reads]
  have files: "map fs inputFiles = map (\<lambda>i. Some (buffer i)) (first # others)"
    and parsed: "\<forall>i\<in>set (first # others). parseWav (buffer i) = Inr i" by simp_all
  from parsed have "parseWav (buffer first) = Inr first" by simp
  then have fit: "fields_fit first" by (rule parseWav_fit)
  have hdr: "wav_header first tot = Inr H"
    unfolding H_def using fit fits(2,3) fits(1) [folded tot_def] by (rule wav_header_canon)
  have lenP: "length P = tot" unfolding P_def tot_def using whole by (rule length_concat_pcm)
  have lenH: "length H = 44" by (simp add: H_def length_canon)
  have comb: "combineWavs fs inputFiles outputFile = (None, fs(outputFile \<mapsto> H @ P))"
    using reads same hdr by (simp add: combineWavs_def tot_def P_def)
  have tot32: "tot \<le> 0xFFFFFFFF" using fits(1) by (simp add: tot_def)
  have parse: "parseWav (H @ P) =
      Inr \<lparr>format = format first, channels = channels first, sampleRate = sampleRate first,
           bitsPerSample = bitsPerSample first, dataOffset = 44, dataLength = tot,
           buffer = H @ P\<rparr>"
    unfolding H_def using fit tot32 lenP
    by (intro parseWav_canon) (simp_all add: fields_fit_def)
  have riff: "readUInt32LE (H @ P) 4 = Inr (4 + (8 + 16) + (8 + tot))"
    using read32_canon_riff [of "36 + tot"] fits(1) by (simp add: H_def tot_def)
  have H36: "H = canon (4 + (8 + 16) + (8 + tot)) (format first) (channels first) (sampleRate first)
            (sampleRate first * channels first * bitsPerSample first div 8)
            (channels first * bitsPerSample first div 8) (bitsPerSample first) tot"
    by (simp add: H_def)
  have tk: "take 44 (H @ P) = H" "drop 44 (H @ P) = P" using lenH by simp_all
  have again: "take tot (drop 44 (H @ P)) = P" using lenH lenP by simp
  show ?thesis
  proof (intro exI [of _ "H @ P"] conjI)
    show "combineWavs fs inputFiles outputFile = (None, fs(outputFile \<mapsto> H @ P))" by (rule comb)
    show "map fs inputFiles = map (\<lambda>i. Some (buffer i)) (first # others)" by (rule files)
    show "\<forall>i\<in>set (first # others). parseWav (buffer i) = Inr i" by (rule parsed)
    show "take 44 (H @ P)
          = canon (4 + (8 + 16) + (8 + sum_list (map dataLength (first # others))))
              (format first) (channels first) (sampleRate first)
              (sampleRate first * channels first * bitsPerSample first div 8)
              (channels first * bitsPerSample first div 8) (bitsPerSample first)
              (sum_list (map dataLength (first # others)))"
      unfolding tk tot_def [symmetric] by (rule H36)
    show "drop 44 (H @ P)
          = concat (map (\<lambda>i. take (dataLength i) (drop (dataOffset i) (buffer i))) (first # others))"
      unfolding tk by (rule Pbytes)
    show "length (drop 44 (H @ P)) = sum_list (map dataLength (first # others))"
      unfolding tk tot_def [symmetric] by (rule lenP)
    show "readUInt32LE (H @ P) 4
            = Inr (4 + (8 + 16) + (8 + sum_list (map dataLength (first # others))))"
      unfolding tot_def [symmetric] by (rule riff)
    show "\<exists>info. parseWav (H @ P) = Inr info
            \<and> format info = format first \<and> channels info = channels first
            \<and> sampleRate info = sampleRate first \<and> bitsPerSample info = bitsPerSample first
            \<and> dataOffset info = 44
            \<and> dataLength info = sum_list (map dataLength (first # others))
            \<and> take (dataLength info) (drop (dataOffset info) (H @ P))
                = concat (map (\<lambda>i. take (dataLength i) (drop (dataOffset i) (buffer i)))
                            (first # others))"
      unfolding tot_def [symmetric] Pbytes [symmetric]
      using parse again by simp
  qed
qed

text \<open>
  Claim C5. When every input is read and parsed and some fragment after the first differs
  from the first in format tag, channel count, sample rate or bits per sample, \<open>combineWavs\<close>
  throws the format-mismatch error and the file store is as before: nothing is written.
\<close>
theorem combineWavs_mismatch:
  assumes "read_infos fs inputFiles = Inr infos"
    and "i \<in> set (tl infos)"
    and "format i \<noteq> format (hd infos) \<or> channels i \<noteq> channels (hd infos)
         \<or> sampleRate i \<noteq> sampleRate (hd infos) \<or> bitsPerSample i \<noteq> bitsPerSample (hd infos)"
  shows "combineWavs fs inputFiles outputFile = (Some FormatMismatch, fs)"
proof -
  from assms(2) obtain first others where infos: "infos = first # others"
    by (cases infos) auto
  with assms(2,3) have "\<not> same_format first i" "i \<in> set others"
    by (auto simp: same_format_def)
  then have "\<not> list_all (same_format first) others" by (auto simp: list_all_iff)
  with assms(1) infos show ?thesis by (simp add: combineWavs_def)
qed

theorem combineWavs_splices_witness:
  "read_infos
      [(0::nat) \<mapsto> canon 40 1 1 22050 44100 2 16 4 @ [1, 2, 3, 4],
       1 \<mapsto> canon 38 1 1 22050 44100 2 16 2 @ [5, 6]] [0, 1]
     = Inr [\<lparr>format = 1, channels = 1, sampleRate = 22050, bitsPerSample = 16, dataOffset = 44,
             dataLength = 4, buffer = canon 40 1 1 22050 44100 2 16 4 @ [1, 2, 3, 4]\<rparr>,
            \<lparr>format = 1, channels = 1, sampleRate = 22050, bitsPerSample = 16, dataOffset = 44,
             dataLength = 2, buffer = canon 38 1 1 22050 44100 2 16 2 @ [5, 6]\<rparr>]
   \<and> combineWavs
        [(0::nat) \<mapsto> canon 40 1 1 22050 44100 2 16 4 @ [1, 2, 3, 4],
         1 \<mapsto> canon 38 1 1 22050 44100 2 16 2 @ [5, 6]] [0, 1] 2
      = (None,
         [0 \<mapsto> canon 40 1 1 22050 44100 2 16 4 @ [1, 2, 3, 4],
          1 \<mapsto> canon 38 1 1 22050 44100 2 16 2 @ [5, 6],
          2 \<mapsto> canon 42 1 1 22050 44100 2 16 6 @ [1, 2, 3, 4, 5, 6]])
   \<and> readUInt32LE (canon 42 1 1 22050 44100 2 16 6 @ [1, 2, 3, 4, 5, 6]) 4
       = Inr (4 + (8 + 16) + (8 + 6))
   \<and> parseWav (canon 42 1 1 22050 44100 2 16 6 @ [1, 2, 3, 4, 5, 6])
       = Inr \<lparr>format = 1, channels = 1, sampleRate = 22050, bitsPerSample = 16, dataOffset = 44,
              dataLength = 6, buffer = canon 42 1 1 22050 44100 2 16 6 @ [1, 2, 3, 4, 5, 6]\<rparr>"
proof -
  let ?A = "canon 40 1 1 22050 44100 2 16 4 @ [1, 2, 3, 4]"
  let ?B = "canon 38 1 1 22050 44100 2 16 2 @ [5, 6]"
  let ?O = "canon 42 1 1 22050 44100 2 16 6 @ [1, 2, 3, 4, 5, 6]"
  let ?iA = "\<lparr>format = 1, channels = 1, sampleRate = 22050, bitsPerSample = 16,
              dataOffset = 44, dataLength = 4, buffer = ?A\<rparr>"
  let ?iB = "\<lparr>format = 1, channels = 1, sampleRate = 22050, bitsPerSample = 16,
              dataOffset = 44, dataLength = 2, buffer = ?B\<rparr>"
  let ?fs = "[(0::nat) \<mapsto> ?A, 1 \<mapsto> ?B]"
  have pA: "parseWav ?A = Inr ?iA" by (rule parseWav_canon) simp_all
  have pB: "parseWav ?B = Inr ?iB" by (rule parseWav_canon) simp_all
  have pO: "parseWav ?O = Inr \<lparr>format = 1, channels = 1, sampleRate = 22050, bitsPerSample = 16,
              dataOffset = 44, dataLength = 6, buffer = ?O\<rparr>"
    by (rule parseWav_canon) simp_all
  have reads: "read_infos ?fs [0, 1] = Inr (?iA # [?iB])" by (simp add: pA pB del: One_nat_def)
  have same: "list_all (same_format ?iA) [?iB]" by (simp add: same_format_def)
  have whole: "\<forall>i\<in>set (?iA # [?iB]). dataOffset i + dataLength i \<le> length (buffer i)"
    by (simp add: length_canon)
  from combineWavs_splices [OF reads same whole, of 2]
  obtain out where o: "combineWavs ?fs [0, 1] 2 = (None, ?fs(2 \<mapsto> out))"
    and h: "take 44 out = canon 42 1 1 22050 44100 2 16 6"
    and d: "drop 44 out = [1, 2, 3, 4, 5, 6]"
    and r: "readUInt32LE out 4 = Inr (4 + (8 + 16) + (8 + 6))"
    by (auto simp: length_canon)
  have "out = take 44 out @ drop 44 out" by simp
  then have out: "out = ?O" unfolding h d .
  show ?thesis using reads o r pO unfolding out by (intro conjI) simp_all
qed

theorem combineWavs_mismatch_witness:
  "combineWavs
     [(0::nat) \<mapsto> canon 1036 1 1 22050 44100 2 16 1000 @ replicate 1000 0,
      1 \<mapsto> canon 2036 1 1 16000 32000 2 16 2000 @ replicate 2000 0] [0, 1] 2
   = (Some FormatMismatch,
      [0 \<mapsto> canon 1036 1 1 22050 44100 2 16 1000 @ replicate 1000 0,
       1 \<mapsto> canon 2036 1 1 16000 32000 2 16 2000 @ replicate 2000 0])"
proof -
  let ?A = "canon 1036 1 1 22050 44100 2 16 1000 @ replicate 1000 0"
  let ?B = "canon 2036 1 1 16000 32000 2 16 2000 @ replicate 2000 0"
  let ?iA = "\<lparr>format = 1, channels = 1, sampleRate = 22050, bitsPerSample = 16,
              dataOffset = 44, dataLength = 1000, buffer = ?A\<rparr>"
  let ?iB = "\<lparr>format = 1, channels = 1, sampleRate = 16000, bitsPerSample = 16,
              dataOffset = 44, dataLength = 2000, buffer = ?B\<rparr>"
  let ?fs = "[(0::nat) \<mapsto> ?A, 1 \<mapsto> ?B]"
  have pA: "parseWav ?A = Inr ?iA" by (rule parseWav_canon) simp_all
  have pB: "parseWav ?B = Inr ?iB" by (rule parseWav_canon) simp_all
  have reads: "read_infos ?fs [0, 1] = Inr [?iA, ?iB]" by (simp add: pA pB del: One_nat_def)
  have mem: "?iB \<in> set (tl [?iA, ?iB])" by simp
  have diff: "format ?iB \<noteq> format (hd [?iA, ?iB]) \<or> channels ?iB \<noteq> channels (hd [?iA, ?iB])
         \<or> sampleRate ?iB \<noteq> sampleRate (hd [?iA, ?iB])
         \<or> bitsPerSample ?iB \<noteq> bitsPerSample (hd [?iA, ?iB])" by simp
  from combineWavs_mismatch [OF reads mem diff, of 2] show ?thesis .
qed


section \<open>Properties of the speed slider\<close>

lemma exact_rounds: "rounds_to_double (\<lambda>x. x)"
  by (simp add: rounds_to_double_def)

lemma rnd_unit:
  assumes "rounds_to_double rnd" "0 \<le> x" "x \<le> 1"
  shows "1/2 \<le> rnd (1/2 + rnd (1/2 * x))" "rnd (1/2 + rnd (1/2 * x)) \<le> 1"
proof -
  from assms(1) have mono: "\<And>a b. a \<le> b \<Longrightarrow> rnd a \<le> rnd b"
    and dy: "\<And>(k::int) (m::nat). \<bar>k\<bar> \<le> 2 ^ 53 \<Longrightarrow> m \<le> 1000 \<Longrightarrow>
               rnd (of_int k / 2 ^ m) = of_int k / 2 ^ m"
    by (simp_all add: rounds_to_double_def)
  from dy [of 0 0] dy [of 1 0] dy [of 1 1]
  have zero: "rnd 0 = 0" and one: "rnd 1 = 1" and half: "rnd (1/2) = 1/2" by simp_all
  have "rnd 0 \<le> rnd (1/2 * x)" using assms(2) by (intro mono) simp
  then have lo: "0 \<le> rnd (1/2 * x)" by (simp add: zero)
  have "rnd (1/2 * x) \<le> rnd (1/2)" using assms(3) by (intro mono) simp
  then have hi: "rnd (1/2 * x) \<le> 1/2" by (simp add: half)
  have "rnd (1/2) \<le> rnd (1/2 + rnd (1/2 * x))" using lo by (intro mono) simp
  then show "1/2 \<le> rnd (1/2 + rnd (1/2 * x))" by (simp add: half)
  have "rnd (1/2 + rnd (1/2 * x)) \<le> rnd 1" using hi by (intro mono) simp
  then show "rnd (1/2 + rnd (1/2 * x)) \<le> 1" by (simp add: one)
qed

text \<open>
  Claim C10. Whatever the argument (\<open>undefined\<close>, \<open>null\<close>, \<open>NaN\<close>, an infinity or a finite
  number inside or outside \<open>[0, 1]\<close>), the factor returned lies between \<open>0.5\<close> and \<open>1.0\<close>, for
  every rounding of doubles: the audio is slowed down or left as it is, never sped up. A
  finite argument is clamped to \<open>[0, 1]\<close> and mapped by \<open>0.5 + 0.5 * s\<close>; any other argument
  stands for \<open>0.7\<close>, which gives \<open>0.85\<close> in exact arithmetic. The same bounds hold of the
  factor the speed-adjustment stage hands to \<open>ffmpeg\<close>.
\<close>
theorem sliderToAtempo_range:
  assumes "rounds_to_double rnd"
  shows "1/2 \<le> sliderToAtempo rnd v \<and> sliderToAtempo rnd v \<le> 1
       \<and> (\<forall>x. v = Finite x \<longrightarrow>
             sliderToAtempo rnd v = rnd (1/2 + rnd (1/2 * max 0 (min 1 x))))
       \<and> ((\<forall>x. v \<noteq> Finite x) \<longrightarrow>
             sliderToAtempo rnd v = sliderToAtempo rnd (Finite (rnd (7/10))))
       \<and> 1/2 \<le> stage_atempo rnd v \<and> stage_atempo rnd v \<le> 1"
proof -
  have range: "1/2 \<le> sliderToAtempo rnd u \<and> sliderToAtempo rnd u \<le> 1" for u
  proof -
    define s where "s = max 0 (min 1 (case u of Finite x \<Rightarrow> x | _ \<Rightarrow> rnd (7/10)))"
    have s: "0 \<le> s" "s \<le> 1" by (simp_all add: s_def)
    have eq: "sliderToAtempo rnd u = rnd (1/2 + rnd (1/2 * s))"
      by (simp add: sliderToAtempo_def s_def)
    from rnd_unit [OF assms s] eq show ?thesis by simp
  qed
  define s where "s = max 0 (min 1 (case v of Finite x \<Rightarrow> x | _ \<Rightarrow> rnd (7/10)))"
  have s: "0 \<le> s" "s \<le> 1" by (simp_all add: s_def)
  have eq: "sliderToAtempo rnd v = rnd (1/2 + rnd (1/2 * s))"
    by (simp add: sliderToAtempo_def s_def)
  from rnd_unit [OF assms s] eq
  have "1/2 \<le> sliderToAtempo rnd v" "sliderToAtempo rnd v \<le> 1" by simp_all
  moreover have "\<forall>x. v = Finite x \<longrightarrow>
             sliderToAtempo rnd v = rnd (1/2 + rnd (1/2 * max 0 (min 1 x)))"
    by (simp add: sliderToAtempo_def)
  moreover have "(\<forall>x. v \<noteq> Finite x) \<longrightarrow>
             sliderToAtempo rnd v = sliderToAtempo rnd (Finite (rnd (7/10)))"
    by (cases v) (simp_all add: sliderToAtempo_def)
  ultimately show ?thesis using range [of "case v of
          Finite x \<Rightarrow> if x = 0 then Finite (rnd (7/10)) else Finite x
        | PosInfinity \<Rightarrow> PosInfinity
        | NegInfinity \<Rightarrow> NegInfinity
        | _ \<Rightarrow> Finite (rnd (7/10))"]
    unfolding stage_atempo_def by blast
qed

theorem sliderToAtempo_range_witness:
  "rounds_to_double (\<lambda>x. x)
   \<and> sliderToAtempo (\<lambda>x. x) Undefined = 17/20
   \<and> sliderToAtempo (\<lambda>x. x) NaN = 17/20
   \<and> sliderToAtempo (\<lambda>x. x) (Finite 2) = 1
   \<and> sliderToAtempo (\<lambda>x. x) (Finite (- 3)) = 1/2
   \<and> 1/2 \<le> sliderToAtempo (\<lambda>x. x) (Finite (1/4)) \<and> sliderToAtempo (\<lambda>x. x) (Finite (1/4)) \<le> 1
   \<and> stage_atempo (\<lambda>x. x) (Finite 0) = 17/20 \<and> stage_atempo (\<lambda>x. x) (Finite (1/4)) = 5/8"
  using sliderToAtempo_range [OF exact_rounds, of "Finite (1/4)"] exact_rounds
  by (simp add: sliderToAtempo_def stage_atempo_def)


section \<open>Properties of the output sanitizer\<close>

lemma starts_with_append: "starts_with p xs \<Longrightarrow> starts_with p (xs @ zs)"
  by (induction p xs rule: starts_with.induct) auto

lemma contains_Nil [simp]: "contains [] xs"
  by (cases xs) auto

lemma contains_append_right: "contains p xs \<Longrightarrow> contains p (xs @ zs)"
proof (induction xs)
  case Nil
  then show ?case by simp
next
  case (Cons x xs)
  then show ?case using starts_with_append [of p "x # xs" zs] by auto
qed

lemma contains_append_left: "contains p xs \<Longrightarrow> contains p (ys @ xs)"
  by (induction ys) auto

lemma contains_infix: "contains p y \<Longrightarrow> contains p (a @ y @ b)"
  by (intro contains_append_left contains_append_right)

lemma starts_with_sep:
  "c \<notin> set p \<Longrightarrow> starts_with p (x @ c # y) \<Longrightarrow> starts_with p x"
  by (induction p x rule: starts_with.induct) auto

lemma contains_sep:
  "c \<notin> set p \<Longrightarrow> contains p (x @ c # y) \<Longrightarrow> contains p x \<or> contains p y"
proof (induction x)
  case Nil
  then show ?case using starts_with_sep [of c p "[]" y] by (cases p) auto
next
  case (Cons a x)
  from Cons.prems(2) have "starts_with p ((a # x) @ c # y) \<or> contains p (x @ c # y)" by simp
  then show ?case
  proof
    assume "starts_with p ((a # x) @ c # y)"
    from starts_with_sep [OF Cons.prems(1) this] show ?thesis by simp
  next
    assume "contains p (x @ c # y)"
    from Cons.IH [OF Cons.prems(1) this] show ?thesis by auto
  qed
qed

lemma contains_join:
  "c \<notin> set p \<Longrightarrow> p \<noteq> [] \<Longrightarrow> contains p (join_with [c] L) \<Longrightarrow> \<exists>l\<in>set L. contains p l"
proof (induction "[c]" L rule: join_with.induct)
  case 1
  then show ?case by simp
next
  case (2 x)
  then show ?case by simp
next
  case (3 x y zs)
  from "3.prems"(3) have "contains p (x @ c # join_with [c] (y # zs))" by simp
  from contains_sep [OF "3.prems"(1) this] "3.hyps" "3.prems"(1,2) show ?case by auto
qed

lemma map_join: "map f (join_with [c] L) = join_with [f c] (map (map f) L)"
  by (induction "[c]" L rule: join_with.induct) auto

lemma trim_infix: "\<exists>a b. s = a @ trim s @ b"
proof -
  have 1: "s = takeWhile is_space s @ dropWhile is_space s" by simp
  have "rev (dropWhile is_space s)
          = takeWhile is_space (rev (dropWhile is_space s)) @ dropWhile is_space (rev (dropWhile is_space s))"
    by simp
  then have "dropWhile is_space s = trim s @ rev (takeWhile is_space (rev (dropWhile is_space s)))"
    unfolding trim_def by (metis rev_append rev_rev_ident)
  with 1 show ?thesis by metis
qed

lemma noisy_infix: "noisy y \<Longrightarrow> noisy (a @ y @ b)"
  unfolding noisy_def contains_ci_def map_append
  by (meson contains_infix)

lemma fold_lf: "fold_case 0x0A = 0x0A"
  by (simp add: fold_case_def)

lemma noisy_join: "noisy (join_with [0x0A] L) \<Longrightarrow> \<exists>l\<in>set L. noisy l"
proof -
  have pats: "(0x0A::jschar) \<notin> set (js ''FutureWarning'')" "js ''FutureWarning'' \<noteq> []"
    "(0x0A::jschar) \<notin> set (js ''UserWarning'')" "js ''UserWarning'' \<noteq> []"
    "(0x0A::jschar) \<notin> set (js ''LoRACompatibleLinear'')" "js ''LoRACompatibleLinear'' \<noteq> []"
    "(0x0A::jschar) \<notin> set (map fold_case (js ''deprecated''))" "map fold_case (js ''deprecated'') \<noteq> []"
    "(0x0A::jschar) \<notin> set (map fold_case (js ''tokenizers parallelism''))"
    "map fold_case (js ''tokenizers parallelism'') \<noteq> []"
    "(0x0A::jschar) \<notin> set (map fold_case (js ''huggingface hub telemetry''))"
    "map fold_case (js ''huggingface hub telemetry'') \<noteq> []"
    "(0x0A::jschar) \<notin> set (js ''MKL'')" "js ''MKL'' \<noteq> []"
    "(0x0A::jschar) \<notin> set (js ''OpenBLAS'')" "js ''OpenBLAS'' \<noteq> []"
    "(0x0A::jschar) \<notin> set (js ''OMP'')" "js ''OMP'' \<noteq> []"
    "(0x0A::jschar) \<notin> set (js ''KMP'')" "js ''KMP'' \<noteq> []"
    by (simp_all add: js_def fold_case_def)
  have ci: "\<And>p. (0x0A::jschar) \<notin> set (map fold_case p) \<Longrightarrow> map fold_case p \<noteq> [] \<Longrightarrow>
              contains_ci p (join_with [0x0A] L) \<Longrightarrow> \<exists>l\<in>set L. contains_ci p l"
  proof -
    fix p :: jsstring
    assume a: "(0x0A::jschar) \<notin> set (map fold_case p)" "map fold_case p \<noteq> []"
      "contains_ci p (join_with [0x0A] L)"
    from a(3) have "contains (map fold_case p) (join_with [0x0A] (map (map fold_case) L))"
      by (simp add: contains_ci_def map_join fold_lf)
    from contains_join [OF a(1,2) this] show "\<exists>l\<in>set L. contains_ci p l"
      by (auto simp: contains_ci_def)
  qed
  assume "noisy (join_with [0x0A] L)"
  then show ?thesis
    unfolding noisy_def
    using contains_join [OF pats(1,2), of L] contains_join [OF pats(3,4), of L]
      contains_join [OF pats(5,6), of L] ci [OF pats(7,8)] ci [OF pats(9,10)] ci [OF pats(11,12)]
      contains_join [OF pats(13,14), of L] contains_join [OF pats(15,16), of L]
      contains_join [OF pats(17,18), of L] contains_join [OF pats(19,20), of L]
    by blast
qed

lemma sanitize_not_noisy: "\<not> noisy (sanitizeCliOutput t)"
proof
  assume n: "noisy (sanitizeCliOutput t)"
  define J where "J = join_with [0x0A] (filter (\<lambda>line. \<not> noisy line) (split_lines t))"
  from trim_infix [of J] obtain a b where "J = a @ trim J @ b" by blast
  with n noisy_infix [of "trim J" a b] have "noisy J" by (simp add: sanitizeCliOutput_def J_def)
  from noisy_join [OF this [unfolded J_def]] show False by simp
qed

lemma lines_from_infix: "l \<in> set (lines_from cur cs) \<Longrightarrow> \<exists>a b. cur @ cs = a @ l @ b"
proof (induction cs arbitrary: cur)
  case Nil
  then show ?case by (intro exI [of _ "[]"]) simp
next
  case (Cons c cs)
  show ?case
  proof (cases "c = 0x0A")
    case True
    with Cons.prems have "l = chop_cr cur \<or> l \<in> set (lines_from [] cs)" by simp
    then show ?thesis
    proof
      assume l: "l = chop_cr cur"
      have "\<exists>b. cur = l @ b" unfolding l chop_cr_def
        using append_butlast_last_id [of cur]
        by (cases "cur \<noteq> [] \<and> last cur = 0x0D") (auto intro: exI [of _ "[last cur]"])
      then obtain b where "cur = l @ b" by blast
      then have "cur @ c # cs = [] @ l @ (b @ c # cs)" by simp
      then show ?thesis by blast
    next
      assume "l \<in> set (lines_from [] cs)"
      from Cons.IH [OF this] obtain a b where "cs = a @ l @ b" by auto
      then have "cur @ c # cs = (cur @ c # a) @ l @ b" by simp
      then show ?thesis by blast
    qed
  next
    case False
    with Cons.prems have "l \<in> set (lines_from (cur @ [c]) cs)" by simp
    from Cons.IH [OF this] show ?thesis by simp
  qed
qed

lemma sanitize_lines_not_noisy: "l \<in> set (split_lines (sanitizeCliOutput t)) \<Longrightarrow> \<not> noisy l"
proof
  assume "l \<in> set (split_lines (sanitizeCliOutput t))" "noisy l"
  from lines_from_infix [OF this(1) [unfolded split_lines_def]] obtain a b
    where "sanitizeCliOutput t = a @ l @ b" by auto
  with noisy_infix [OF \<open>noisy l\<close>, of a b] sanitize_not_noisy [of t] show False by simp
qed


lemma join_infix: "l \<in> set L \<Longrightarrow> \<exists>a b. join_with sep L = a @ l @ b"
proof (induction sep L rule: join_with.induct)
  case (1 sep)
  then show ?case by simp
next
  case (2 sep x)
  then show ?case by (intro exI [of _ "[]"]) simp
next
  case (3 sep x y zs)
  from "3.prems" have "l = x \<or> l \<in> set (y # zs)" by auto
  then show ?case
  proof
    assume "l = x"
    then have "join_with sep (x # y # zs) = [] @ l @ (sep @ join_with sep (y # zs))" by simp
    then show ?thesis by blast
  next
    assume "l \<in> set (y # zs)"
    from "3.IH" [OF this] obtain a b where "join_with sep (y # zs) = a @ l @ b" by blast
    then have "join_with sep (x # y # zs) = (x @ sep @ a) @ l @ b" by simp
    then show ?thesis by blast
  qed
qed

lemma dropWhile_keeps:
  "core \<noteq> [] \<Longrightarrow> \<not> P (hd core) \<Longrightarrow> \<exists>p. dropWhile P (pre @ core @ post) = p @ core @ post"
proof (induction pre)
  case Nil
  then show ?case by (cases core) auto
next
  case (Cons x pre)
  then show ?case by (cases "P x") (auto intro: exI [of _ "x # pre"])
qed

lemma trim_ends:
  assumes "trim l \<noteq> []"
  shows "\<not> is_space (hd (trim l))" "\<not> is_space (last (trim l))"
proof -
  define D where "D = dropWhile is_space l"
  have R: "dropWhile is_space (rev D) \<noteq> []" using assms by (simp add: trim_def D_def)
  then have D: "D \<noteq> []" by auto
  then have hdD: "\<not> is_space (hd D)" unfolding D_def by (rule hd_dropWhile)
  from R have "\<not> is_space (hd (dropWhile is_space (rev D)))" by (rule hd_dropWhile)
  with R show "\<not> is_space (last (trim l))" by (simp add: trim_def D_def last_rev)
  have "last (rev D) = hd D" using D by (simp add: last_rev)
  with hdD D have "last (dropWhile is_space (rev D)) = hd D"
    by (simp add: last_dropWhile)
  with R hdD show "\<not> is_space (hd (trim l))" by (simp add: trim_def D_def hd_rev)
qed

lemma trim_keeps: "\<exists>a b. trim (pre @ l @ post) = a @ trim l @ b"
proof (cases "trim l = []")
  case True
  then show ?thesis by (intro exI [of _ "trim (pre @ l @ post)"] exI [of _ "[]"]) simp
next
  case False
  define core where "core = trim l"
  from trim_infix [of l] obtain a1 b1 where l: "l = a1 @ core @ b1" unfolding core_def by blast
  from trim_ends [OF False] False
  have c: "core \<noteq> []" "\<not> is_space (hd core)" "\<not> is_space (last core)"
    by (simp_all add: core_def)
  from dropWhile_keeps [of core is_space "pre @ a1" "b1 @ post", OF c(1,2)]
  obtain p where p: "dropWhile is_space (pre @ l @ post) = p @ core @ (b1 @ post)"
    by (auto simp: l)
  have rc: "rev core \<noteq> []" "\<not> is_space (hd (rev core))" using c by (simp_all add: hd_rev)
  from dropWhile_keeps [of "rev core" is_space "rev (b1 @ post)" "rev p", OF rc]
  obtain q where "dropWhile is_space (rev (p @ core @ (b1 @ post))) = q @ rev core @ rev p"
    by auto
  then have "trim (pre @ l @ post) = p @ core @ rev q"
    by (simp add: trim_def p)
  then show ?thesis unfolding core_def by blast
qed

lemma sanitize_keeps:
  assumes "l \<in> set (split_lines t)" "\<not> noisy l"
  shows "\<exists>a b. sanitizeCliOutput t = a @ trim l @ b"
proof -
  from assms have "l \<in> set (filter (\<lambda>line. \<not> noisy line) (split_lines t))" by simp
  from join_infix [OF this, of "[0x0A]"] obtain a b where
    "join_with [0x0A] (filter (\<lambda>line. \<not> noisy line) (split_lines t)) = a @ l @ b" by blast
  with trim_keeps [of a l b] show ?thesis by (simp add: sanitizeCliOutput_def)
qed

lemma set_join: "set (join_with sep L) \<subseteq> set sep \<union> \<Union> (set ` set L)"
  by (induction sep L rule: join_with.induct) auto

lemma sanitize_all_dropped:
  assumes "\<forall>l\<in>set (split_lines t). noisy l \<or> trim l = []"
  shows "sanitizeCliOutput t = []"
proof -
  let ?L = "filter (\<lambda>line. \<not> noisy line) (split_lines t)"
  from assms have "\<forall>l\<in>set ?L. \<forall>c\<in>set l. is_space c" by (auto simp: trim_Nil_iff)
  moreover have "is_space 0x0A" by (simp add: is_space_def)
  ultimately have "\<forall>c\<in>set (join_with [0x0A] ?L). is_space c"
    using set_join [of "[0x0A]" ?L] by auto
  then show ?thesis by (simp add: sanitizeCliOutput_def trim_Nil_iff)
qed

lemma lines_from_single: "0x0A \<notin> set cs \<Longrightarrow> lines_from cur cs = [cur @ cs]"
  by (induction cs arbitrary: cur) auto

lemma sanitize_one_line:
  assumes "0x0A \<notin> set t"
  shows "sanitizeCliOutput t = (if noisy t then [] else trim t)"
proof -
  from assms have "split_lines t = [t]" by (simp add: split_lines_def lines_from_single)
  then show ?thesis by (simp add: sanitizeCliOutput_def trim_def)
qed

lemma decimal_digit: "n < 10 \<Longrightarrow> decimal n = [of_nat (48 + n)]"
  by (simp add: decimal.simps [of n])

lemmas sanitize_eval = sanitizeCliOutput_def split_lines_def chop_cr_def noisy_def
  contains_ci_def fold_case_def trim_def is_space_def js_def


section \<open>Properties of the stage pipeline\<close>

lemma stage_progress_writes:
  "map (\<lambda>j. (stage j, progress j)) (writes job ps)
     = (stage job, progress job) # map (\<lambda>p. (p_stage p, p_progress p)) ps"
  by (induction ps arbitrary: job) (simp_all add: update_def)

lemma length_writes: "length (writes job ps) = Suc (length ps)"
  by (induction ps arbitrary: job) simp_all

lemma writes_not_Nil: "writes job ps \<noteq> []"
  by (cases ps) simp_all

lemma last_writes_snoc: "last (writes job (ps @ [p])) = update (last (writes job ps)) p"
  by (induction ps arbitrary: job) (simp_all add: writes_not_Nil)

lemma run_all_ok: "\<forall>s\<in>set ss. fst s = None \<Longrightarrow> run ss = (None, concat (map snd ss))"
proof (induction ss)
  case Nil
  then show ?case by simp
next
  case (Cons s ss)
  then obtain ps where "s = (None, ps)" by (cases s) auto
  with Cons show ?case by simp
qed

lemma run_ok_iff: "fst (run ss) = None \<longleftrightarrow> (\<forall>s\<in>set ss. fst s = None)"
proof (induction ss rule: run.induct)
  case 1
  then show ?case by simp
next
  case (2 e ps rest)
  then show ?case by simp
next
  case (3 ps rest)
  then show ?case by (cases "run rest") simp
qed

lemma run_first_failure:
  "i < length ss \<Longrightarrow> fst (ss ! i) = Some e \<Longrightarrow> \<forall>j<i. fst (ss ! j) = None
   \<Longrightarrow> run ss = (Some e, concat (map snd (take (Suc i) ss)))"
proof (induction ss arbitrary: i rule: run.induct)
  case 1
  then show ?case by simp
next
  case (2 e' ps rest)
  show ?case
  proof (cases i)
    case 0
    with "2.prems" show ?thesis by simp
  next
    case (Suc k)
    with "2.prems"(3) have "fst (((Some e', ps) # rest) ! 0) = None" by blast
    then show ?thesis by simp
  qed
next
  case (3 ps rest)
  show ?case
  proof (cases i)
    case 0
    with "3.prems" show ?thesis by simp
  next
    case (Suc k)
    with "3.prems" have "k < length rest" "fst (rest ! k) = Some e" "\<forall>j<k. fst (rest ! j) = None"
      by auto
    from "3.IH" [OF this] Suc show ?thesis by simp
  qed
qed

lemma ignoring_any [simp]: "ignoring attempt rest = rest"
  by (cases attempt) (simp_all add: ignoring_def)

lemma cleanup_nothing: "cleanup w is = (None, [])"
  by (induction "is") simp_all

lemma tts_chunks_ok:
  "fst (tts_chunks w n is) = None \<Longrightarrow> snd (tts_chunks w n is) = map (\<lambda>i. generating w i n) is"
  by (induction "is") (auto split: option.splits prod.splits)

lemma tts_stage_ok:
  assumes "fst (tts_stage w n) = None"
  shows "map (\<lambda>p. (p_stage p, p_progress p)) (snd (tts_stage w n))
           = (''generating_audio'', 30)
             # map (\<lambda>i. (''generating_audio'', generating_progress (rounding w) i n)) [0..<n]"
proof -
  from assms have "fst (tts_chunks w n [0..<n]) = None"
    by (cases "tts_chunks w n [0..<n]") (simp add: tts_stage_def)
  from tts_chunks_ok [OF this]
  have "snd (tts_stage w n) = patch_of ''generating_audio'' 30
                (js ''Preparing audio generation (30'' @ [0x2013] @ js ''60%)...'')
            # map (\<lambda>i. generating w i n) [0..<n]"
    by (cases "tts_chunks w n [0..<n]") (simp add: tts_stage_def)
  then show ?thesis
    by (simp add: generating_def patch_of_def comp_def)
qed

lemma extract_stage_ok:
  "fst (extract_stage w) = None \<Longrightarrow>
   map (\<lambda>p. (p_stage p, p_progress p)) (snd (extract_stage w))
     = (if isPdf w then [(''converting_pdf'', 10), (''converted_pdf'', 30)]
        else [(''converting_txt'', 10), (''converted_txt'', 30)])"
  by (auto simp: extract_stage_def patch_of_def Let_def split: option.splits if_splits)

lemma other_stages:
  "map (\<lambda>p. (p_stage p, p_progress p)) (snd (save_stage w)) = [(''saving_file'', 5)]"
  "snd (read_stage w) = []"
  "map (\<lambda>p. (p_stage p, p_progress p)) (snd (combine_stage w n)) = [(''combining_audio'', 58)]"
  "map (\<lambda>p. (p_stage p, p_progress p)) (snd (speed_stage w))
     = (if voiceCloning w then [] else [(''adjusting_speed'', 60)])"
  "map (\<lambda>p. (p_stage p, p_progress p)) (snd (transcribe_stage w))
     = (''transcribing'', 60) # (if whisper_run w = None then [(''transcribed'', 90)] else [])"
  "map (\<lambda>p. (p_stage p, p_progress p)) (snd (final_stage w))
     = [(''finalizing'', 95), (''completed'', 100)]"
  "snd (cleanup_stage w n) = []"
  "snd (metadata_stage w) = []"
  by (simp_all add: save_stage_def read_stage_def combine_stage_def speed_stage_def
      transcribe_stage_def final_stage_def patch_of_def Let_def cleanup_stage_def
      cleanup_nothing metadata_stage_def split: sum.splits option.splits)

lemma never_throw: "fst (transcribe_stage w) = None" "fst (final_stage w) = None"
  "fst (cleanup_stage w n) = None" "fst (metadata_stage w) = None"
  by (simp_all add: transcribe_stage_def final_stage_def Let_def cleanup_stage_def
      cleanup_nothing metadata_stage_def split: option.splits)

lemma generating_progress_range:
  assumes "rounds_to_double rnd" "i < n"
  shows "30 \<le> generating_progress rnd i n" "generating_progress rnd i n \<le> 60"
proof -
  from assms(1) have mono: "\<And>a b. a \<le> b \<Longrightarrow> rnd a \<le> rnd b"
    and dy: "\<And>(k::int) (m::nat). \<bar>k\<bar> \<le> 2 ^ 53 \<Longrightarrow> m \<le> 1000 \<Longrightarrow>
               rnd (of_int k / 2 ^ m) = of_int k / 2 ^ m"
    by (simp_all add: rounds_to_double_def)
  from dy [of 0 0] dy [of 1 0] dy [of 30 0]
  have zero: "rnd 0 = 0" and one: "rnd 1 = 1" and thirty: "rnd 30 = 30" by simp_all
  define q where "q = real i / real (max 1 n)"
  have q: "0 \<le> q" "q \<le> 1" using assms(2) by (simp_all add: q_def)
  have "rnd 0 \<le> rnd q" "rnd q \<le> rnd 1" using q by (auto intro: mono)
  then have rq: "0 \<le> rnd q" "rnd q \<le> 1" by (simp_all add: zero one)
  have "rnd 0 \<le> rnd (rnd q * 30)" "rnd (rnd q * 30) \<le> rnd 30" using rq by (auto intro!: mono)
  then have "0 \<le> rnd (rnd q * 30)" "rnd (rnd q * 30) \<le> 30" by (simp_all add: zero thirty)
  then have "0 \<le> \<lfloor>rnd (rnd q * 30)\<rfloor>" "\<lfloor>rnd (rnd q * 30)\<rfloor> \<le> 30"
    by (simp_all add: floor_le_iff)
  then show "30 \<le> generating_progress rnd i n" "generating_progress rnd i n \<le> 60"
    by (simp_all add: generating_progress_def q_def)
qed

lemma stages_text:
  "readMd w = Inr mdText \<Longrightarrow>
   stages w = [save_stage w, extract_stage w, read_stage w,
               tts_stage w (length (splitTextIntoChunks mdText 300)),
               combine_stage w (length (splitTextIntoChunks mdText 300)), speed_stage w,
               cleanup_stage w (length (splitTextIntoChunks mdText 300)), metadata_stage w,
               transcribe_stage w, final_stage w]"
  by (simp add: stages_def Let_def)

lemma completed_sequence:
  assumes ok: "fst (run (stages w)) = None" and md: "readMd w = Inr mdText"
  shows "processBook w = writes (initial w) (concat (map snd (stages w)))"
    and "map (\<lambda>j. (stage j, progress j)) (processBook w) =
       [(''starting'', 0), (''saving_file'', 5)]
       @ (if isPdf w then [(''converting_pdf'', 10), (''converted_pdf'', 30)]
          else [(''converting_txt'', 10), (''converted_txt'', 30)])
       @ [(''generating_audio'', 30)]
       @ map (\<lambda>i. (''generating_audio'',
                  generating_progress (rounding w) i (length (splitTextIntoChunks mdText 300))))
           [0..<length (splitTextIntoChunks mdText 300)]
       @ [(''combining_audio'', 58)]
       @ (if voiceCloning w then [] else [(''adjusting_speed'', 60)])
       @ [(''transcribing'', 60)]
       @ (if whisper_run w = None then [(''transcribed'', 90)] else [])
       @ [(''finalizing'', 95), (''completed'', 100)]"
proof -
  let ?n = "length (splitTextIntoChunks mdText 300)"
  from ok have all: "\<forall>s\<in>set (stages w). fst s = None" by (simp add: run_ok_iff)
  from run_all_ok [OF all] show pb: "processBook w = writes (initial w) (concat (map snd (stages w)))"
    by (simp add: processBook_def)
  from all have e: "fst (extract_stage w) = None" and t: "fst (tts_stage w ?n) = None"
    by (simp_all add: stages_text [OF md])
  show "map (\<lambda>j. (stage j, progress j)) (processBook w) =
       [(''starting'', 0), (''saving_file'', 5)]
       @ (if isPdf w then [(''converting_pdf'', 10), (''converted_pdf'', 30)]
          else [(''converting_txt'', 10), (''converted_txt'', 30)])
       @ [(''generating_audio'', 30)]
       @ map (\<lambda>i. (''generating_audio'', generating_progress (rounding w) i ?n)) [0..<?n]
       @ [(''combining_audio'', 58)]
       @ (if voiceCloning w then [] else [(''adjusting_speed'', 60)])
       @ [(''transcribing'', 60)]
       @ (if whisper_run w = None then [(''transcribed'', 90)] else [])
       @ [(''finalizing'', 95), (''completed'', 100)]"
    unfolding pb stage_progress_writes stages_text [OF md]
    by (simp add: other_stages extract_stage_ok [OF e] tts_stage_ok [OF t] initial_def)
qed

lemma completed_last:
  assumes ok: "fst (run (stages w)) = None" and md: "readMd w = Inr mdText"
  shows "status (last (processBook w)) = Completed"
proof -
  let ?n = "length (splitTextIntoChunks mdText 300)"
  let ?front = "concat (map snd [save_stage w, extract_stage w, read_stage w, tts_stage w ?n,
                   combine_stage w ?n, speed_stage w, cleanup_stage w ?n, metadata_stage w,
                   transcribe_stage w])
                 @ [patch_of ''finalizing'' 95 (js ''Finalizing...'')]"
  have "concat (map snd (stages w)) = ?front @ [last (snd (final_stage w))]"
    by (simp add: stages_text [OF md] final_stage_def)
  with completed_sequence(1) [OF ok md]
  have "last (processBook w) = update (last (writes (initial w) ?front)) (last (snd (final_stage w)))"
    by (simp only: last_writes_snoc)
  then show ?thesis by (simp add: update_def final_stage_def)
qed

lemma sample_chunks:
  "splitTextIntoChunks (js ''Hello world. This is a test.'') 300
     = [js ''Hello world. This is a test.'']"
  by (simp add: splitTextIntoChunks_def split_sentences_def chunk_step_def trim_def
      is_space_def is_terminal_def js_def)

lemma sample_fragment:
  "parseWav (canon 1036 1 1 22050 44100 2 16 1000 @ replicate 1000 0)
     = Inr \<lparr>format = 1, channels = 1, sampleRate = 22050, bitsPerSample = 16, dataOffset = 44,
            dataLength = 1000, buffer = canon 1036 1 1 22050 44100 2 16 1000 @ replicate 1000 0\<rparr>"
  by (rule parseWav_canon) simp_all

lemma sample_combine:
  "fst (combineWavs [ChunkOut 0 \<mapsto> canon 1036 1 1 22050 44100 2 16 1000 @ replicate 1000 0]
          [ChunkOut 0] OutPath) = None"
proof -
  let ?i = "\<lparr>format = 1, channels = 1, sampleRate = 22050, bitsPerSample = 16, dataOffset = 44,
            dataLength = 1000, buffer = canon 1036 1 1 22050 44100 2 16 1000 @ replicate 1000 0\<rparr>"
  have h: "wav_header ?i 1000 = Inr (canon (36 + 1000) (format ?i) (channels ?i) (sampleRate ?i)
            (sampleRate ?i * channels ?i * bitsPerSample ?i div 8)
            (channels ?i * bitsPerSample ?i div 8) (bitsPerSample ?i) 1000)"
    by (rule wav_header_canon) (simp_all add: fields_fit_def)
  have r: "read_infos [ChunkOut 0 \<mapsto> canon 1036 1 1 22050 44100 2 16 1000 @ replicate 1000 0]
             [ChunkOut 0] = Inr [?i]"
    by (simp add: sample_fragment del: One_nat_def)
  show ?thesis
    unfolding combineWavs_def r using h by (simp del: One_nat_def)
qed

lemma tts_close_ok: "tts_close (Some 0) stderr = None"
  by (simp add: tts_close_def)

lemma sample_like_ok:
  assumes "writeSource w = None" "\<not> isPdf w" "readTxt w = None" "writeMd w = None"
    and md: "readMd w = Inr (js ''Hello world. This is a test.'')"
    and "hasTtsCli w" "writeChunkText w 0 = None" "ttsCli w 0 = Closed (Some 0) []"
    and "audioDir w = [ChunkOut 0 \<mapsto> canon 1036 1 1 22050 44100 2 16 1000 @ replicate 1000 0]"
    and "ffmpeg w = Closed (Some 0) []" "replaceAudio w = None"
  shows "fst (run (stages w)) = None"
proof -
  have "fst (save_stage w) = None" using assms by (simp add: save_stage_def)
  moreover have "fst (extract_stage w) = None" using assms by (simp add: extract_stage_def)
  moreover have "fst (read_stage w) = None" using assms by (simp add: read_stage_def)
  moreover have "fst (tts_stage w 1) = None"
    using assms by (simp add: tts_stage_def tts_run_def tts_close_ok)
  moreover have "fst (combine_stage w 1) = None"
    using assms by (simp add: combine_stage_def sample_combine [unfolded One_nat_def])
  moreover have "fst (speed_stage w) = None"
    using assms by (simp add: speed_stage_def adjustAudioSpeed_def)
  ultimately show ?thesis
    unfolding run_ok_iff stages_text [OF md] sample_chunks
    by (simp add: never_throw)
qed

lemma sample_ok: "fst (run (stages sample_world)) = None"
  by (rule sample_like_ok) (simp_all add: sample_world_def)


lemma sample_md: "readMd sample_world = Inr (js ''Hello world. This is a test.'')"
  "readMd (sample_world\<lparr>hasWhisperCli := False\<rparr>) = Inr (js ''Hello world. This is a test.'')"
  by (simp_all add: sample_world_def)

lemma generating_exact: "generating_progress (\<lambda>x. x) 0 1 = 30"
  by (simp add: generating_progress_def)

lemma sample_sequence:
  "map (\<lambda>j. (stage j, progress j)) (processBook sample_world) =
     [(''starting'', 0), (''saving_file'', 5), (''converting_txt'', 10), (''converted_txt'', 30),
      (''generating_audio'', 30), (''generating_audio'', 30), (''combining_audio'', 58),
      (''adjusting_speed'', 60), (''transcribing'', 60), (''transcribed'', 90),
      (''finalizing'', 95), (''completed'', 100)]"
  unfolding completed_sequence(2) [OF sample_ok sample_md(1)] sample_chunks
  by (simp add: sample_world_def whisper_run_def generating_exact [unfolded One_nat_def])

text \<open>
  Claim C2, as stated, fails: no stage is called \<open>extracting_text\<close>, a stage \<open>transcribed\<close>
  is written at 90, and \<open>finalizing\<close> is written at 95. The run of the sample world, which
  completes, writes the following stages and progress values.
\<close>
theorem stage_sequence_counterexample:
  "status (last (processBook sample_world)) = Completed
   \<and> map (\<lambda>j. (stage j, progress j)) (processBook sample_world) =
     [(''starting'', 0), (''saving_file'', 5), (''converting_txt'', 10), (''converted_txt'', 30),
      (''generating_audio'', 30), (''generating_audio'', 30), (''combining_audio'', 58),
      (''adjusting_speed'', 60), (''transcribing'', 60), (''transcribed'', 90),
      (''finalizing'', 95), (''completed'', 100)]
   \<and> (''finalizing'', 90) \<notin> set (map (\<lambda>j. (stage j, progress j)) (processBook sample_world))
   \<and> ''extracting_text'' \<notin> set (map stage (processBook sample_world))"
proof -
  have "map stage (processBook sample_world)
          = map fst (map (\<lambda>j. (stage j, progress j)) (processBook sample_world))"
    by (simp add: comp_def)
  then show ?thesis
    using completed_last [OF sample_ok sample_md(1)]
    by (simp only: sample_sequence) simp
qed

text \<open>
  Claim C2, amended. A job that runs to completion writes exactly: \<open>starting\<close> 0,
  \<open>saving_file\<close> 5, \<open>converting_pdf\<close> 10 and \<open>converted_pdf\<close> 30 (for a TXT book
  \<open>converting_txt\<close> and \<open>converted_txt\<close>), \<open>generating_audio\<close> 30 and then, for each chunk
  \<open>i\<close> of \<open>N\<close>, \<open>generating_audio\<close> at \<open>30 + floor ((i / N) * 30)\<close>, which lies between 30
  and 60, \<open>combining_audio\<close> 58, \<open>adjusting_speed\<close> 60 unless voice cloning is on,
  \<open>transcribing\<close> 60, \<open>transcribed\<close> 90 when the transcription succeeded, \<open>finalizing\<close> 95 and
  \<open>completed\<close> 100 with status completed. A job that does not run to completion ends with
  the write of \<open>failed\<close>, \<open>-1\<close> and status failed.
\<close>
theorem completed_run_stages:
  "(fst (run (stages w)) = None \<and> readMd w = Inr mdText \<longrightarrow>
      map (\<lambda>j. (stage j, progress j)) (processBook w) =
       [(''starting'', 0), (''saving_file'', 5)]
       @ (if isPdf w then [(''converting_pdf'', 10), (''converted_pdf'', 30)]
          else [(''converting_txt'', 10), (''converted_txt'', 30)])
       @ [(''generating_audio'', 30)]
       @ map (\<lambda>i. (''generating_audio'',
                  generating_progress (rounding w) i (length (splitTextIntoChunks mdText 300))))
           [0..<length (splitTextIntoChunks mdText 300)]
       @ [(''combining_audio'', 58)]
       @ (if voiceCloning w then [] else [(''adjusting_speed'', 60)])
       @ [(''transcribing'', 60)]
       @ (if whisper_run w = None then [(''transcribed'', 90)] else [])
       @ [(''finalizing'', 95), (''completed'', 100)]
     \<and> status (last (processBook w)) = Completed
     \<and> (rounds_to_double (rounding w) \<longrightarrow>
          (\<forall>i<length (splitTextIntoChunks mdText 300).
              30 \<le> generating_progress (rounding w) i (length (splitTextIntoChunks mdText 300))
            \<and> generating_progress (rounding w) i (length (splitTextIntoChunks mdText 300)) \<le> 60)))
   \<and> (fst (run (stages w)) = Some e \<longrightarrow>
         stage (last (processBook w)) = ''failed'' \<and> progress (last (processBook w)) = - 1
       \<and> status (last (processBook w)) = Failed)"
proof (intro conjI impI)
  assume a: "fst (run (stages w)) = None \<and> readMd w = Inr mdText"
  then have ok: "fst (run (stages w)) = None" and md: "readMd w = Inr mdText" by simp_all
  show "map (\<lambda>j. (stage j, progress j)) (processBook w) =
       [(''starting'', 0), (''saving_file'', 5)]
       @ (if isPdf w then [(''converting_pdf'', 10), (''converted_pdf'', 30)]
          else [(''converting_txt'', 10), (''converted_txt'', 30)])
       @ [(''generating_audio'', 30)]
       @ map (\<lambda>i. (''generating_audio'',
                  generating_progress (rounding w) i (length (splitTextIntoChunks mdText 300))))
           [0..<length (splitTextIntoChunks mdText 300)]
       @ [(''combining_audio'', 58)]
       @ (if voiceCloning w then [] else [(''adjusting_speed'', 60)])
       @ [(''transcribing'', 60)]
       @ (if whisper_run w = None then [(''transcribed'', 90)] else [])
       @ [(''finalizing'', 95), (''completed'', 100)]"
    by (rule completed_sequence(2) [OF ok md])
  show "status (last (processBook w)) = Completed" by (rule completed_last [OF ok md])
  show "\<forall>i<length (splitTextIntoChunks mdText 300).
              30 \<le> generating_progress (rounding w) i (length (splitTextIntoChunks mdText 300))
            \<and> generating_progress (rounding w) i (length (splitTextIntoChunks mdText 300)) \<le> 60"
    if "rounds_to_double (rounding w)"
    using generating_progress_range [OF that] by blast
next
  assume "fst (run (stages w)) = Some e"
  then obtain ps where "run (stages w) = (Some e, ps)" by (cases "run (stages w)") simp
  then have "last (processBook w) = update (last (writes (initial w) ps)) (failed_patch e)"
    by (simp add: processBook_def last_writes_snoc)
  then show "stage (last (processBook w)) = ''failed''" "progress (last (processBook w)) = - 1"
    "status (last (processBook w)) = Failed"
    by (simp_all add: update_def failed_patch_def)
qed

theorem completed_run_stages_witness:
  "fst (run (stages sample_world)) = None
   \<and> readMd sample_world = Inr (js ''Hello world. This is a test.'')
   \<and> rounds_to_double (rounding sample_world)
   \<and> map (\<lambda>j. (stage j, progress j)) (processBook sample_world) =
     [(''starting'', 0), (''saving_file'', 5), (''converting_txt'', 10), (''converted_txt'', 30),
      (''generating_audio'', 30), (''generating_audio'', 30), (''combining_audio'', 58),
      (''adjusting_speed'', 60), (''transcribing'', 60), (''transcribed'', 90),
      (''finalizing'', 95), (''completed'', 100)]
   \<and> status (last (processBook sample_world)) = Completed"
proof -
  have r: "rounds_to_double (rounding sample_world)"
    by (simp add: sample_world_def rounds_to_double_def)
  from completed_run_stages [of sample_world "js ''Hello world. This is a test.''"]
    r sample_ok sample_md(1)
  show ?thesis
    unfolding sample_chunks
    by (simp add: sample_world_def whisper_run_def generating_exact [unfolded One_nat_def])
qed


lemma failure_record:
  assumes "i < length (stages w)" and "fst (stages w ! i) = Some e"
    and "\<forall>j<i. fst (stages w ! j) = None"
  shows "processBook w
           = writes (initial w) (concat (map snd (take (Suc i) (stages w))) @ [failed_patch e])"
    and "stage (last (processBook w)) = ''failed''" and "progress (last (processBook w)) = - 1"
    and "status (last (processBook w)) = Failed"
    and "message (last (processBook w)) = catch_message e"
proof -
  from run_first_failure [OF assms]
  show pb: "processBook w
           = writes (initial w) (concat (map snd (take (Suc i) (stages w))) @ [failed_patch e])"
    by (simp add: processBook_def)
  then have "last (processBook w)
      = update (last (writes (initial w) (concat (map snd (take (Suc i) (stages w))))))
          (failed_patch e)"
    by (simp only: last_writes_snoc)
  then show "stage (last (processBook w)) = ''failed''" "progress (last (processBook w)) = - 1"
    "status (last (processBook w)) = Failed" "message (last (processBook w)) = catch_message e"
    by (simp_all add: update_def failed_patch_def)
qed









lemma generating_progress_last:
  assumes "rounds_to_double rnd" "31 \<le> n"
  shows "59 \<le> generating_progress rnd (n - 1) n"
proof -
  from assms(1) have mono: "\<And>a b. a \<le> b \<Longrightarrow> rnd a \<le> rnd b"
    and dy: "\<And>(k::int) (m::nat). \<bar>k\<bar> \<le> 2 ^ 53 \<Longrightarrow> m \<le> 1000 \<Longrightarrow>
               rnd (of_int k / 2 ^ m) = of_int k / 2 ^ m"
    by (simp_all add: rounds_to_double_def)
  from dy [of 495 9] dy [of 29 0]
  have d: "rnd (495 / 512) = 495 / 512" and i: "rnd 29 = 29" by simp_all
  define q where "q = real (n - 1) / real (max 1 n)"
  have n: "real (n - 1) = real n - 1" "max 1 n = n" "0 < real n" using assms(2) by auto
  have "495 / 512 * real n \<le> real n - 1" using assms(2) by simp
  then have "495 / 512 \<le> q" unfolding q_def n using n(3) by (simp add: pos_le_divide_eq)
  then have "rnd (495 / 512) \<le> rnd q" by (rule mono)
  then have "29 \<le> rnd q * 30" by (simp add: d)
  then have "rnd 29 \<le> rnd (rnd q * 30)" by (rule mono)
  then have "29 \<le> \<lfloor>rnd (rnd q * 30)\<rfloor>" by (simp add: i le_floor_iff)
  then show ?thesis by (simp add: generating_progress_def q_def)
qed

lemma run_prefix:
  "\<forall>s\<in>set pre. fst s = None \<Longrightarrow>
   \<exists>r later. run (pre @ s # rest) = (r, concat (map snd pre) @ snd s @ later)"
proof (induction pre)
  case Nil
  obtain r ps where s: "s = (r, ps)" by (cases s)
  show ?case
  proof (cases r)
    case None
    with s show ?thesis by (cases "run rest") simp
  next
    case (Some e)
    with s show ?thesis by simp
  qed
next
  case (Cons a pre)
  then obtain ps where a: "a = (None, ps)" by (cases a) auto
  from Cons obtain r later where "run (pre @ s # rest) = (r, concat (map snd pre) @ snd s @ later)"
    by auto
  with a show ?case by simp
qed

lemma writes_0: "writes job ps ! 0 = job"
  by (cases ps) simp_all

lemma writes_prefix_nth:
  "\<forall>p\<in>set ps. p_status p = None \<Longrightarrow> k < length ps \<Longrightarrow>
     stage (writes job (ps @ later) ! Suc k) = p_stage (ps ! k)
   \<and> progress (writes job (ps @ later) ! Suc k) = p_progress (ps ! k)
   \<and> status (writes job (ps @ later) ! Suc k) = status job"
proof (induction ps arbitrary: job k)
  case Nil
  then show ?case by simp
next
  case (Cons p ps)
  show ?case
  proof (cases k)
    case 0
    with Cons.prems show ?thesis by (simp add: writes_0 update_def)
  next
    case (Suc k')
    with Cons.prems have "k' < length ps" "\<forall>p\<in>set ps. p_status p = None" by simp_all
    from Cons.IH [OF this(2,1), of "update job p"] Cons.prems(1) Suc
    show ?thesis by (simp add: update_def)
  qed
qed

lemma extract_ok_patches:
  assumes "fst (extract_stage w) = None"
  shows "\<exists>a b. snd (extract_stage w) = [a, b] \<and> p_status a = None \<and> p_status b = None"
  using assms
  by (auto simp: extract_stage_def patch_of_def Let_def split: option.splits if_splits)

text \<open>
  Claim C1 does not hold of the code. When the text gives at least 31 chunks and the
  synthesis of all of them succeeds, the update for the last chunk writes a progress of at
  least 59 under stage \<open>generating_audio\<close>, and the next update, \<open>combining_audio\<close>, writes 58,
  both with status processing: the progress of the job decreases.
\<close>
theorem progress_drops_at_combining:
  assumes rd: "rounds_to_double (rounding w)"
    and md: "readMd w = Inr mdText"
    and n: "31 \<le> length (splitTextIntoChunks mdText 300)"
    and ok: "fst (save_stage w) = None" "fst (extract_stage w) = None"
            "fst (tts_stage w (length (splitTextIntoChunks mdText 300))) = None"
  shows "\<exists>k. Suc k < length (processBook w)
           \<and> stage (processBook w ! k) = ''generating_audio''
           \<and> status (processBook w ! k) = Processing
           \<and> 59 \<le> progress (processBook w ! k)
           \<and> stage (processBook w ! Suc k) = ''combining_audio''
           \<and> status (processBook w ! Suc k) = Processing
           \<and> progress (processBook w ! Suc k) = 58"
proof -
  define N where "N = length (splitTextIntoChunks mdText 300)"
  have N31: "31 \<le> N" using n by (simp add: N_def)
  then obtain M where M: "N = Suc M" by (cases N) simp_all
  have N: "31 \<le> N" "[0..<N] = [0..<N - 1] @ [N - 1]"
    using N31 by (simp_all add: M)
  define prep where "prep = patch_of ''generating_audio'' 30
                (js ''Preparing audio generation (30'' @ [0x2013] @ js ''60%)...'')"
  define comb where "comb = patch_of ''combining_audio'' 58
                (js ''Combining audio chunks ('' @ [0x2248] @ js ''60%)...'')"
  from extract_ok_patches [OF ok(2)] obtain a b where
    ex: "snd (extract_stage w) = [a, b]" "p_status a = None" "p_status b = None" by blast
  have "fst (tts_chunks w N [0..<N]) = None"
    using ok(3) by (cases "tts_chunks w N [0..<N]") (simp add: tts_stage_def N_def)
  from tts_chunks_ok [OF this]
  have "snd (tts_stage w N) = prep # map (\<lambda>i. generating w i N) [0..<N]"
    by (cases "tts_chunks w N [0..<N]") (simp add: tts_stage_def prep_def)
  also have "map (\<lambda>i. generating w i N) [0..<N]
               = map (\<lambda>i. generating w i N) [0..<N - 1] @ [generating w (N - 1) N]"
    by (subst N(2)) simp
  finally have tts: "snd (tts_stage w N) = prep # map (\<lambda>i. generating w i N) [0..<N - 1]
                                     @ [generating w (N - 1) N]" .
  define front where "front = snd (save_stage w) @ [a, b] @ prep
                        # map (\<lambda>i. generating w i N) [0..<N - 1] @ [generating w (N - 1) N, comb]"
  have pre: "\<forall>s\<in>set [save_stage w, extract_stage w, read_stage w, tts_stage w N]. fst s = None"
    using ok md by (simp add: read_stage_def N_def)
  from run_prefix [OF pre, of "combine_stage w N"
      "[speed_stage w, cleanup_stage w N, metadata_stage w, transcribe_stage w, final_stage w]"]
  obtain r later where "run (stages w) = (r, front @ later)"
    unfolding stages_text [OF md] N_def [symmetric]
    by (auto simp: front_def ex(1) tts combine_stage_def comb_def read_stage_def md)
  then obtain later' where pb: "processBook w = writes (initial w) (front @ later')"
    by (cases r) (auto simp: processBook_def)
  have st: "\<forall>p\<in>set front. p_status p = None"
    by (auto simp: front_def save_stage_def patch_of_def ex prep_def comb_def generating_def)
  have len: "length front = N + 5"
    using N(1) by (simp add: front_def save_stage_def)
  define k where "k = N + 3"
  have k: "k < length front" "Suc k < length front" by (simp_all add: k_def len)
  have pos: "front ! k = generating w (N - 1) N" "front ! Suc k = comb"
  proof -
    let ?A = "snd (save_stage w) @ [a, b] @ prep # map (\<lambda>i. generating w i N) [0..<N - 1]"
    have f: "front = ?A @ [generating w (N - 1) N, comb]" by (simp add: front_def)
    have l: "length ?A = k" using N(1) by (simp add: k_def save_stage_def)
    show "front ! k = generating w (N - 1) N"
      unfolding f using nth_append_length [of ?A] l by simp
    have "front = (?A @ [generating w (N - 1) N]) @ [comb]" by (simp add: f)
    moreover have "length (?A @ [generating w (N - 1) N]) = Suc k" using l by simp
    ultimately show "front ! Suc k = comb"
      using nth_append_length [of "?A @ [generating w (N - 1) N]" comb "[]"] by simp
  qed
  from writes_prefix_nth [OF st k(1), of "initial w" later'] writes_prefix_nth [OF st k(2), of "initial w" later']
  have rec: "stage (processBook w ! Suc k) = ''generating_audio''"
    "progress (processBook w ! Suc k) = generating_progress (rounding w) (N - 1) N"
    "status (processBook w ! Suc k) = Processing"
    "stage (processBook w ! Suc (Suc k)) = ''combining_audio''"
    "progress (processBook w ! Suc (Suc k)) = 58"
    "status (processBook w ! Suc (Suc k)) = Processing"
    unfolding pb pos by (simp_all add: generating_def patch_of_def comb_def initial_def)
  have "Suc (Suc k) < length (processBook w)"
    unfolding pb length_writes using k(2) by simp
  with rec generating_progress_last [OF rd N(1)] show ?thesis
    by (intro exI [of _ "Suc k"]) simp
qed

lemma split_piece:
  "\<forall>c\<in>set s. \<not> is_space c \<Longrightarrow> cur @ s \<noteq> [] \<Longrightarrow> is_terminal (last (cur @ s)) \<Longrightarrow>
   split_from cur (s @ 0x20 # rest) = (cur @ s) # split_from [] (dropWhile is_space rest)"
proof (induction s arbitrary: cur)
  case Nil
  have "is_space 0x20" by (simp add: is_space_def)
  with Nil show ?case by simp
next
  case (Cons c s)
  from Cons.prems have "split_from cur ((c # s) @ 0x20 # rest) = split_from (cur @ [c]) (s @ 0x20 # rest)"
    by simp
  also have "\<dots> = ((cur @ [c]) @ s) # split_from [] (dropWhile is_space rest)"
    using Cons.prems by (intro Cons.IH) simp_all
  finally show ?case by simp
qed

lemma split_repeated:
  assumes "\<forall>c\<in>set s. \<not> is_space c" "s \<noteq> []" "is_terminal (last s)"
  shows "split_sentences (concat (replicate n (s @ [0x20]))) = replicate n s @ [[]]"
proof (induction n)
  case 0
  then show ?case by (simp add: split_sentences_def)
next
  case (Suc n)
  let ?t = "concat (replicate n (s @ [0x20]))"
  have "?t = [] \<or> \<not> is_space (hd ?t)"
    using assms(1,2) by (cases n; cases s) auto
  then have dw: "dropWhile is_space ?t = ?t" by (cases ?t) auto
  have "split_from [] (s @ 0x20 # ?t) = ([] @ s) # split_from [] (dropWhile is_space ?t)"
    using assms by (intro split_piece) simp_all
  with dw Suc show ?case by (simp add: split_sentences_def)
qed

lemma chunk_loop_repeated:
  assumes "s \<noteq> []" "B \<le> length s"
  shows "chunk_loop B (chunks, s) (replicate n s) = (chunks @ replicate n (trim s), s)"
proof (induction n arbitrary: chunks)
  case 0
  then show ?case by simp
next
  case (Suc n)
  have "chunk_step B (chunks, s) s = (chunks @ [trim s], s)"
    using assms by (simp add: chunk_step_cases)
  with Suc [of "chunks @ [trim s]"] show ?case
    by (simp add: replicate_app_Cons_same)
qed

lemma chunks_repeated:
  assumes "\<forall>c\<in>set s. \<not> is_space c" "s \<noteq> []" "is_terminal (last s)" "B \<le> length s"
  shows "splitTextIntoChunks (concat (replicate (Suc n) (s @ [0x20]))) B = replicate (Suc n) (trim s)"
proof -
  have "chunk_loop B ([], []) (replicate (Suc n) s @ [[]])
          = chunk_step B (chunk_loop B ([], []) (replicate (Suc n) s)) []"
    by (rule chunk_loop_snoc)
  also have "chunk_loop B ([], []) (replicate (Suc n) s) = chunk_loop B ([], s) (replicate n s)"
    by (simp add: chunk_step_cases)
  also have "\<dots> = (replicate n (trim s), s)"
    using chunk_loop_repeated [OF assms(2,4), of "[]" n] by simp
  also have "chunk_step B (replicate n (trim s), s) [] = (replicate n (trim s) @ [trim s], [])"
    using assms(2,4) by (simp add: chunk_step_cases)
  finally have "chunk_loop B ([], []) (replicate (Suc n) s @ [[]])
                  = (replicate (Suc n) (trim s), [])"
    by (simp add: replicate_append_same)
  then show ?thesis
    unfolding splitTextIntoChunks_def split_repeated [OF assms(1-3)]
    by (simp add: trim_def)
qed

lemma tts_chunks_all_ok:
  "\<forall>i\<in>set is. writeChunkText w i = None \<and> tts_run w i = None \<Longrightarrow> fst (tts_chunks w n is) = None"
  by (induction "is") (auto split: prod.splits)

theorem progress_drops_at_combining_witness:
  "rounds_to_double (rounding
      (sample_world\<lparr>readMd := Inr (concat (replicate 31 ((replicate 300 0x61 @ [0x2E]) @ [0x20])))\<rparr>))
   \<and> length (splitTextIntoChunks
         (concat (replicate 31 ((replicate 300 0x61 @ [0x2E]) @ [0x20]))) 300) = 31
   \<and> (\<exists>k. stage (processBook
         (sample_world\<lparr>readMd := Inr (concat (replicate 31 ((replicate 300 0x61 @ [0x2E]) @ [0x20])))\<rparr>)
          ! k) = ''generating_audio''
        \<and> 59 \<le> progress (processBook
         (sample_world\<lparr>readMd := Inr (concat (replicate 31 ((replicate 300 0x61 @ [0x2E]) @ [0x20])))\<rparr>)
          ! k)
        \<and> status (processBook
         (sample_world\<lparr>readMd := Inr (concat (replicate 31 ((replicate 300 0x61 @ [0x2E]) @ [0x20])))\<rparr>)
          ! k) = Processing
        \<and> stage (processBook
         (sample_world\<lparr>readMd := Inr (concat (replicate 31 ((replicate 300 0x61 @ [0x2E]) @ [0x20])))\<rparr>)
          ! Suc k) = ''combining_audio''
        \<and> progress (processBook
         (sample_world\<lparr>readMd := Inr (concat (replicate 31 ((replicate 300 0x61 @ [0x2E]) @ [0x20])))\<rparr>)
          ! Suc k) = 58
        \<and> status (processBook
         (sample_world\<lparr>readMd := Inr (concat (replicate 31 ((replicate 300 0x61 @ [0x2E]) @ [0x20])))\<rparr>)
          ! Suc k) = Processing)"
proof -
  let ?s = "replicate 300 (0x61 :: jschar) @ [0x2E]"
  let ?t = "concat (replicate 31 (?s @ [0x20]))"
  let ?w = "sample_world\<lparr>readMd := Inr ?t\<rparr>"
  have s: "\<forall>c\<in>set ?s. \<not> is_space c" "?s \<noteq> []" "is_terminal (last ?s)" "300 \<le> length ?s"
    by (simp_all add: is_space_def is_terminal_def)
  have "splitTextIntoChunks (concat (replicate (Suc 30) (?s @ [0x20]))) 300
          = replicate (Suc 30) (trim ?s)"
    using s by (rule chunks_repeated)
  then have len: "length (splitTextIntoChunks ?t 300) = 31" by simp
  have rd: "rounds_to_double (rounding ?w)" by (simp add: sample_world_def rounds_to_double_def)
  have md: "readMd ?w = Inr ?t" by (simp add: sample_world_def)
  have ok: "fst (save_stage ?w) = None" "fst (extract_stage ?w) = None"
    by (simp_all add: save_stage_def extract_stage_def sample_world_def)
  have "fst (tts_chunks ?w 31 [0..<31]) = None"
    by (rule tts_chunks_all_ok) (simp add: tts_run_def tts_close_ok sample_world_def)
  then have tts: "fst (tts_stage ?w (length (splitTextIntoChunks ?t 300))) = None"
    unfolding len by (cases "tts_chunks ?w 31 [0..<31]") (simp add: tts_stage_def)
  have n: "31 \<le> length (splitTextIntoChunks ?t 300)" using len by simp
  from progress_drops_at_combining [OF rd md n ok tts] rd len
  show ?thesis by blast
qed

section \<open>Failure messages and the sanitizer\<close>

lemma sample_pdf_failure:
  "pdf_convert (sample_world\<lparr>fileName := js ''alice.pdf'', isPdf := True,
          pdfCli := Closed (Some 2) (js ''UserWarning: x'')\<rparr>)
     = Some (new_Error (js ''pdf_cli exited 2: UserWarning: x''))"
  "message (last (processBook
      (sample_world\<lparr>fileName := js ''alice.pdf'', isPdf := True,
          pdfCli := Closed (Some 2) (js ''UserWarning: x'')\<rparr>)))
     = js ''pdf_cli exited 2: UserWarning: x''"
proof -
  let ?w = "sample_world\<lparr>fileName := js ''alice.pdf'', isPdf := True,
          pdfCli := Closed (Some 2) (js ''UserWarning: x'')\<rparr>"
  let ?e = "new_Error (js ''pdf_cli exited 2: UserWarning: x'')"
  have d2: "code_string (Some 2) = js ''2''" by (simp add: code_string_def decimal_digit js_def)
  show pc: "pdf_convert ?w = Some ?e"
    unfolding pdf_convert_def by (simp add: sample_world_def d2) (simp_all add: js_def)
  have md: "readMd ?w = Inr (js ''Hello world. This is a test.'')"
    by (simp add: sample_world_def)
  have h1: "Suc 0 < length (stages ?w)" by (simp add: stages_text [OF md])
  have h2: "fst (stages ?w ! Suc 0) = Some ?e"
    by (simp add: stages_text [OF md] extract_stage_def pc Let_def)
  have s0: "fst (save_stage ?w) = None" by (simp add: save_stage_def sample_world_def)
  have h3: "\<forall>j<Suc 0. fst (stages ?w ! j) = None"
    by (simp add: stages_text [OF md] s0)
  have "catch_message ?e = js ''pdf_cli exited 2: UserWarning: x''"
    by (simp add: catch_message_def new_Error_def js_def)
  with failure_record(5) [OF h1 h2 h3]
  show "message (last (processBook ?w)) = js ''pdf_cli exited 2: UserWarning: x''" by simp
qed

text \<open>
  Claim C9, as stated, fails: the filter has no exception for a sole line. When the only
  line of \<open>stderr\<close> matches a pattern, nothing is left of it, and the message of the failed
  synthesis carries the exit code alone. Nor is the output of every failed process
  sanitized: the message of a failed PDF conversion carries the \<open>stderr\<close> of the process as
  it is, with a line that matches a pattern.
\<close>
theorem sanitize_sole_line_counterexample:
  "sanitizeCliOutput (js ''UserWarning: x'') = []
   \<and> tts_close (Some 1) (js ''UserWarning: x'') = Some (new_Error (js ''tts_cli exited 1''))
   \<and> pdf_convert (sample_world\<lparr>fileName := js ''alice.pdf'', isPdf := True,
          pdfCli := Closed (Some 2) (js ''UserWarning: x'')\<rparr>)
       = Some (new_Error (js ''pdf_cli exited 2: UserWarning: x''))
   \<and> message (last (processBook
        (sample_world\<lparr>fileName := js ''alice.pdf'', isPdf := True,
          pdfCli := Closed (Some 2) (js ''UserWarning: x'')\<rparr>)))
       = js ''pdf_cli exited 2: UserWarning: x''"
proof -
  have "sanitizeCliOutput (js ''UserWarning: x'') = []
   \<and> tts_close (Some 1) (js ''UserWarning: x'') = Some (new_Error (js ''tts_cli exited 1''))"
    by (simp add: tts_close_def code_string_def decimal_digit sanitize_eval)
  with sample_pdf_failure show ?thesis by (intro conjI) simp_all
qed

text \<open>
  Claim C9, amended. The sanitizer removes every line that matches one of the patterns,
  also when it is the only line: no line of its result matches a pattern, and no pattern
  occurs anywhere in the result. Every line of the text that matches no pattern is kept: it
  occurs in the result with the white space around it trimmed. When every line matches a
  pattern or is blank the result is empty; a text of one line comes back trimmed when it
  matches no pattern and empty when it matches one. The message of a synthesis process that
  exits with a code other than 0 is \<open>tts_cli exited\<close> and the code (or the sentence about
  the access violation for the code 3221225477) and, only when the sanitized \<open>stderr\<close> is
  not empty, a colon and the sanitized \<open>stderr\<close>; the message of an \<open>ffmpeg\<close> that exits
  with such a code ends with the sanitized \<open>stderr\<close>.
\<close>
theorem sanitize_strips_benign_lines:
  "(\<forall>l\<in>set (split_lines (sanitizeCliOutput t)). \<not> noisy l)
   \<and> \<not> noisy (sanitizeCliOutput t)
   \<and> (\<forall>l\<in>set (split_lines t). \<not> noisy l \<longrightarrow> (\<exists>a b. sanitizeCliOutput t = a @ trim l @ b))
   \<and> ((\<forall>l\<in>set (split_lines t). noisy l \<or> trim l = []) \<longrightarrow> sanitizeCliOutput t = [])
   \<and> (0x0A \<notin> set t \<longrightarrow> sanitizeCliOutput t = (if noisy t then [] else trim t))
   \<and> (code \<noteq> Some 0 \<longrightarrow>
        map_option err_message (tts_close code t) =
          Some ((if code_string code = js ''3221225477''
                 then js ''tts_cli encountered an access violation (0xC0000005). Try shorter text and ensure sufficient memory''
                 else js ''tts_cli exited '' @ code_string code)
                @ (if sanitizeCliOutput t = [] then [] else js '': '' @ sanitizeCliOutput t)))
   \<and> (ffmpeg w = Closed code t \<and> code \<noteq> Some 0 \<longrightarrow>
        map_option err_message (adjustAudioSpeed w) =
          Some (js ''FFmpeg speed adjustment failed with code '' @ code_string code @ js '': ''
                @ sanitizeCliOutput t))"
proof (intro conjI impI ballI)
  fix l assume "l \<in> set (split_lines (sanitizeCliOutput t))"
  then show "\<not> noisy l" by (rule sanitize_lines_not_noisy)
next
  show "\<not> noisy (sanitizeCliOutput t)" by (rule sanitize_not_noisy)
next
  fix l assume "l \<in> set (split_lines t)" "\<not> noisy l"
  then show "\<exists>a b. sanitizeCliOutput t = a @ trim l @ b" by (rule sanitize_keeps)
next
  assume "\<forall>l\<in>set (split_lines t). noisy l \<or> trim l = []"
  then show "sanitizeCliOutput t = []" by (rule sanitize_all_dropped)
next
  assume "0x0A \<notin> set t"
  then show "sanitizeCliOutput t = (if noisy t then [] else trim t)" by (rule sanitize_one_line)
next
  assume "code \<noteq> Some 0"
  then show "map_option err_message (tts_close code t) =
          Some ((if code_string code = js ''3221225477''
                 then js ''tts_cli encountered an access violation (0xC0000005). Try shorter text and ensure sufficient memory''
                 else js ''tts_cli exited '' @ code_string code)
                @ (if sanitizeCliOutput t = [] then [] else js '': '' @ sanitizeCliOutput t))"
    by (simp add: tts_close_def Let_def new_Error_def)
next
  assume "ffmpeg w = Closed code t \<and> code \<noteq> Some 0"
  then show "map_option err_message (adjustAudioSpeed w) =
          Some (js ''FFmpeg speed adjustment failed with code '' @ code_string code @ js '': ''
                @ sanitizeCliOutput t)"
    by (simp add: adjustAudioSpeed_def new_Error_def)
qed

lemma sample_stderr:
  "split_lines (js ''UserWarning: x'' @ [0x0D, 0x0A] @ js '' CUDA out of memory '' @ [0x0A]
                @ js ''OMP: Info #276'')
     = [js ''UserWarning: x'', js '' CUDA out of memory '', js ''OMP: Info #276'']"
  "sanitizeCliOutput (js ''UserWarning: x'' @ [0x0D, 0x0A] @ js '' CUDA out of memory '' @ [0x0A]
                @ js ''OMP: Info #276'') = js ''CUDA out of memory''"
  "split_lines (js ''UserWarning: x'' @ [0x0A]) = [js ''UserWarning: x'', []]"
  by (simp_all add: sanitize_eval)

theorem sanitize_strips_benign_lines_witness:
  "split_lines (js ''UserWarning: x'' @ [0x0D, 0x0A] @ js '' CUDA out of memory '' @ [0x0A]
                @ js ''OMP: Info #276'')
     = [js ''UserWarning: x'', js '' CUDA out of memory '', js ''OMP: Info #276'']
   \<and> noisy (js ''UserWarning: x'') \<and> \<not> noisy (js '' CUDA out of memory '')
   \<and> noisy (js ''OMP: Info #276'')
   \<and> sanitizeCliOutput (js ''UserWarning: x'' @ [0x0D, 0x0A] @ js '' CUDA out of memory '' @ [0x0A]
                @ js ''OMP: Info #276'') = js ''CUDA out of memory''
   \<and> split_lines (js ''CUDA out of memory'') = [js ''CUDA out of memory'']
   \<and> trim (js '' CUDA out of memory '') = js ''CUDA out of memory''
   \<and> split_lines (js ''UserWarning: x'' @ [0x0A]) = [js ''UserWarning: x'', []]
   \<and> sanitizeCliOutput (js ''UserWarning: x'' @ [0x0A]) = []
   \<and> 0x0A \<notin> set (js ''OMP: Info #276'') \<and> sanitizeCliOutput (js ''OMP: Info #276'') = []
   \<and> tts_close (Some 2) (js ''UserWarning: x'' @ [0x0D, 0x0A] @ js '' CUDA out of memory '' @ [0x0A]
                @ js ''OMP: Info #276'')
       = Some (new_Error (js ''tts_cli exited 2: CUDA out of memory''))
   \<and> tts_close (Some 3221225477) (js ''OMP: Info #276'')
       = Some (new_Error (js ''tts_cli encountered an access violation (0xC0000005). Try shorter text and ensure sufficient memory''))
   \<and> ffmpeg (sample_world\<lparr>ffmpeg := Closed (Some 2) (js ''UserWarning: x'' @ [0x0A])\<rparr>)
       = Closed (Some 2) (js ''UserWarning: x'' @ [0x0A])
   \<and> adjustAudioSpeed (sample_world\<lparr>ffmpeg := Closed (Some 2) (js ''UserWarning: x'' @ [0x0A])\<rparr>)
       = Some (new_Error (js ''FFmpeg speed adjustment failed with code 2: ''))"
proof -
  let ?t = "js ''UserWarning: x'' @ [0x0D, 0x0A] @ js '' CUDA out of memory '' @ [0x0A]
                @ js ''OMP: Info #276''"
  let ?u = "js ''UserWarning: x'' @ [0x0A]"
  let ?v = "js ''OMP: Info #276''"
  let ?w = "sample_world\<lparr>ffmpeg := Closed (Some 2) ?u\<rparr>"
  have n: "noisy (js ''UserWarning: x'')" "\<not> noisy (js '' CUDA out of memory '')" "noisy ?v"
    "\<not> noisy []"
    by (simp_all add: noisy_def contains_ci_def fold_case_def js_def)
  have tr: "trim (js '' CUDA out of memory '') = js ''CUDA out of memory''" "trim [] = []"
    by (simp_all add: trim_def is_space_def js_def)
  have one: "split_lines (js ''CUDA out of memory'') = [js ''CUDA out of memory'']"
    "0x0A \<notin> set ?v"
    by (simp_all add: split_lines_def js_def)
  have d: "code_string (Some 2) = js ''2''" "code_string (Some 2) \<noteq> js ''3221225477''"
    by (simp_all add: code_string_def decimal_digit js_def)
  have big: "code_string (Some 3221225477) = js ''3221225477''"
    by (simp add: code_string_def decimal.simps [of 3221225477] decimal.simps [of 322122547]
        decimal.simps [of 32212254] decimal.simps [of 3221225] decimal.simps [of 322122]
        decimal.simps [of 32212] decimal.simps [of 3221] decimal.simps [of 322]
        decimal.simps [of 32] decimal.simps [of 3] js_def)
  have f: "ffmpeg ?w = Closed (Some 2) ?u" by (simp add: sample_world_def)
  note t1 = sanitize_strips_benign_lines [of ?t "Some 2" ?w]
  note t2 = sanitize_strips_benign_lines [of ?u "Some 2" ?w]
  note t3 = sanitize_strips_benign_lines [of ?v "Some 3221225477" ?w]
  have su: "sanitizeCliOutput ?u = []"
    using t2 n(1) tr(2) by (simp add: sample_stderr(3))
  have sv: "sanitizeCliOutput ?v = []" using t3 one(2) n(3) by simp
  have c1: "tts_close (Some 2) ?t = Some (new_Error (js ''tts_cli exited 2: CUDA out of memory''))"
  proof -
    from t1 have "map_option err_message (tts_close (Some 2) ?t)
                    = Some (js ''tts_cli exited 2: CUDA out of memory'')"
      unfolding sample_stderr(2) d(1) by (simp add: js_def)
    then show ?thesis by (auto simp: tts_close_def Let_def new_Error_def split: if_splits)
  qed
  have c2: "tts_close (Some 3221225477) ?v
       = Some (new_Error (js ''tts_cli encountered an access violation (0xC0000005). Try shorter text and ensure sufficient memory''))"
    unfolding tts_close_def big sv Let_def by simp
  have c3: "adjustAudioSpeed ?w
       = Some (new_Error (js ''FFmpeg speed adjustment failed with code 2: ''))"
    unfolding adjustAudioSpeed_def f by (simp add: su d(1)) (simp_all add: js_def)
  show ?thesis
    using sample_stderr(1,2,3) n(1,2,3) one tr(1) su sv c1 c2 c3 f by (intro conjI)
qed

end
